theory Spec2Isabelle
  imports Main "HOL-Library.AList"
begin

section \<open>JavaScript values\<close>

text \<open>
  The tracker compares plain data: scalars, dates, arrays and objects whose own
  enumerable properties are data properties. Numbers are integers. An object carries
  the name of its constructor and its own properties in insertion order (the order of
  \<^verbatim>\<open>Object.keys\<close>); it is made by an object literal or by a class, so that it
  inherits the methods of \<^verbatim>\<open>Object.prototype\<close> unless an own property hides one.
\<close>

datatype jsval =
    JUndefined
  | JNull
  | JBool bool
  | JNum int
  | JStr string
  | JDate int
  | JArr "jsval list"
  | JObj string "(string \<times> jsval) list"

datatype jstype = TUndefined | TObject | TBoolean | TNumber | TString

text \<open>
  What can be thrown: by a getter of an owner, by a deep copy, and by a call of something
  that is not a function.
\<close>

datatype exn = PropertyReadFailure | SnapshotCopyFailure | TypeError

fun typeof :: "jsval \<Rightarrow> jstype" where
  "typeof JUndefined = TUndefined"
| "typeof JNull = TObject"
| "typeof (JBool b) = TBoolean"
| "typeof (JNum n) = TNumber"
| "typeof (JStr s) = TString"
| "typeof (JDate t) = TObject"
| "typeof (JArr xs) = TObject"
| "typeof (JObj c fs) = TObject"

fun isArray :: "jsval \<Rightarrow> bool" where
  "isArray (JArr xs) = True"
| "isArray v = False"

fun instanceofDate :: "jsval \<Rightarrow> bool" where
  "instanceofDate (JDate t) = True"
| "instanceofDate v = False"

fun elems :: "jsval \<Rightarrow> jsval list" where
  "elems (JArr xs) = xs"
| "elems v = []"

text \<open>Decimal rendering of an index, as a template literal does for \<^verbatim>\<open>${i}\<close>.\<close>

fun show_nat :: "nat \<Rightarrow> string" where
  "show_nat n =
     (if n < 10 then [''0123456789'' ! n]
      else show_nat (n div 10) @ [''0123456789'' ! (n mod 10)])"

declare show_nat.simps [simp del]

text \<open>
  Own enumerable string-keyed properties in the order of \<^verbatim>\<open>Object.keys\<close>: the indices of
  an array, the fields of an object.
\<close>

fun own_props :: "jsval \<Rightarrow> (string \<times> jsval) list" where
  "own_props (JArr xs) = zip (map show_nat [0..<length xs]) xs"
| "own_props (JObj c fs) = fs"
| "own_props v = []"

definition keys :: "jsval \<Rightarrow> string list" where
  "keys v = map fst (own_props v)"

text \<open>
  What \<^verbatim>\<open>Object.prototype.hasOwnProperty\<close> answers; it also sees the non-enumerable
  \<^verbatim>\<open>length\<close> of an array.
\<close>

definition has_own :: "jsval \<Rightarrow> string \<Rightarrow> bool" where
  "has_own v k = (k \<in> set (keys v) \<or> (isArray v \<and> k = ''length''))"

text \<open>
  The method call \<^verbatim>\<open>v.hasOwnProperty(k)\<close>, as the differ writes it. The method is looked
  up on the value itself: when the value has an own property of that name, the call finds
  that property, which is data and not a function, and throws a \<^verbatim>\<open>TypeError\<close>.
\<close>

definition hasOwnProperty :: "jsval \<Rightarrow> string \<Rightarrow> exn + bool" where
  "hasOwnProperty v k =
     (if ''hasOwnProperty'' \<in> set (keys v) then Inl TypeError else Inr (has_own v k))"

text \<open>
  \<^verbatim>\<open>ks.some(k => !v.hasOwnProperty(k))\<close>: the keys in order, stopping at the first one
  that is missing; a call that throws ends it.
\<close>

fun some_not_own :: "jsval \<Rightarrow> string list \<Rightarrow> exn + bool" where
  "some_not_own v [] = Inr False"
| "some_not_own v (k # ks) =
     (case hasOwnProperty v k of
        Inl e \<Rightarrow> Inl e
      | Inr b \<Rightarrow> (if \<not> b then Inr True else some_not_own v ks))"

text \<open>
  Property read \<^verbatim>\<open>v[key]\<close>. The differ only reads keys that are own properties of the
  value, so the prototype chain is left out: any other key reads \<^verbatim>\<open>undefined\<close>.
\<close>

definition get_prop :: "jsval \<Rightarrow> string \<Rightarrow> jsval" where
  "get_prop v k =
     (case map_of (own_props v) k of
        Some x \<Rightarrow> x
      | None \<Rightarrow> (if isArray v \<and> k = ''length'' then JNum (int (length (elems v)))
                 else JUndefined))"

subsection \<open>lodash\<close>

text \<open>
  \<^verbatim>\<open>cloneDeep\<close> rebuilds arrays and objects recursively and returns scalars as they are.
\<close>

fun cloneDeep :: "jsval \<Rightarrow> jsval" where
  "cloneDeep (JArr xs) = JArr (map cloneDeep xs)"
| "cloneDeep (JObj c fs) = JObj c (map (\<lambda>(k, v). (k, cloneDeep v)) fs)"
| "cloneDeep v = v"

text \<open>
  \<^verbatim>\<open>isEqual\<close>: scalars and dates by value; arrays by length and elementwise; objects by
  the number of own keys, every key of the left being an own key of the right with an
  equal value, and the same constructor. Values of different kinds are never equal.
\<close>

fun isEqual :: "jsval \<Rightarrow> jsval \<Rightarrow> bool" where
  "isEqual (JArr xs) w = (case w of JArr ys \<Rightarrow> list_all2 isEqual xs ys | _ \<Rightarrow> False)"
| "isEqual (JObj c fs) w =
     (case w of
        JObj d gs \<Rightarrow>
          length fs = length gs \<and>
          list_all (\<lambda>(k, v). case map_of gs k of None \<Rightarrow> False | Some u \<Rightarrow> isEqual v u) fs \<and>
          c = d
      | _ \<Rightarrow> False)"
| "isEqual v w = (v = w)"

text \<open>An object has each key once, at every level.\<close>

fun wf_val :: "jsval \<Rightarrow> bool" where
  "wf_val (JArr xs) = list_all wf_val xs"
| "wf_val (JObj c fs) = (distinct (map fst fs) \<and> list_all (\<lambda>(k, v). wf_val v) fs)"
| "wf_val v = True"

text \<open>No object, at any level, has an own property named \<^verbatim>\<open>hasOwnProperty\<close>.\<close>

fun unshadowed :: "jsval \<Rightarrow> bool" where
  "unshadowed (JArr xs) = list_all unshadowed xs"
| "unshadowed (JObj c fs) =
     (''hasOwnProperty'' \<notin> fst ` set fs \<and> list_all (\<lambda>(k, v). unshadowed v) fs)"
| "unshadowed v = True"

section \<open>The world outside the tracker\<close>

text \<open>
  Owners live on a heap and are known by their identity. Reading a property of an owner
  runs its getter, which may throw. A collected owner is one that a weak reference no
  longer resolves. \<open>unclonable\<close> says for which values \<^verbatim>\<open>cloneDeep\<close> throws.
\<close>

type_synonym oid = nat

record owner =
  constructor_name :: string
  getter :: "string \<Rightarrow> exn + jsval"

record world =
  objects :: "oid \<Rightarrow> owner"
  collected :: "oid \<Rightarrow> bool"
  unclonable :: "jsval \<Rightarrow> bool"

definition deref :: "world \<Rightarrow> oid \<Rightarrow> oid option" where
  "deref w r = (if collected w r then None else Some r)"

definition try_cloneDeep :: "world \<Rightarrow> jsval \<Rightarrow> exn + jsval" where
  "try_cloneDeep w v = (if unclonable w v then Inl SnapshotCopyFailure else Inr (cloneDeep v))"

section \<open>The tracker\<close>

record change =
  path :: string
  oldValue :: jsval
  newValue :: jsval

record trackedPropertyInfo =
  parentObjRef :: oid
  property :: string
  originalValueSnapshot :: jsval
  maxDepth :: int

text \<open>
  \<open>trackedProperties\<close> is a JavaScript \<^verbatim>\<open>Map\<close>: an association list in insertion order,
  where \<^verbatim>\<open>set\<close> is \<^const>\<open>AList.update\<close> and \<^verbatim>\<open>delete\<close> is \<^const>\<open>AList.delete\<close>.
\<close>

record tracker =
  trackedProperties :: "(string \<times> trackedPropertyInfo) list"
  treatAsValue :: "jsval \<Rightarrow> bool"

definition defaultMaxDepth :: int where
  "defaultMaxDepth = 3"

text \<open>The constructor: no entries, and the predicate given or the one that is always false.\<close>

definition new_tracker :: "(jsval \<Rightarrow> bool) option \<Rightarrow> tracker" where
  "new_tracker opt =
     \<lparr>trackedProperties = [],
      treatAsValue = (case opt of None \<Rightarrow> (\<lambda>v. False) | Some p \<Rightarrow> p)\<rparr>"

definition isSpecialTypeOrPrimitive :: "(jsval \<Rightarrow> bool) \<Rightarrow> jsval \<Rightarrow> bool" where
  "isSpecialTypeOrPrimitive tav v =
     (if v = JNull \<or> typeof v \<noteq> TObject then True
      else if instanceofDate v then True
      else if tav v then True
      else False)"

subsection \<open>The recursive differ\<close>

text \<open>One change record holding deep copies of both sides; a copy that throws ends the call.\<close>

definition cloned_change :: "world \<Rightarrow> string \<Rightarrow> jsval \<Rightarrow> jsval \<Rightarrow> exn + change list" where
  "cloned_change w p ov nv =
     (case try_cloneDeep w ov of
        Inl e \<Rightarrow> Inl e
      | Inr oc \<Rightarrow>
         (case try_cloneDeep w nv of
            Inl e \<Rightarrow> Inl e
          | Inr nc \<Rightarrow> Inr [\<lparr>path = p, oldValue = oc, newValue = nc\<rparr>]))"

text \<open>
  The two iterations of the differ: run the body on each element in order and append what it
  returns; the first exception ends the loop. (The final \<^verbatim>\<open>filter\<close> of the branch for
  objects drops undefined entries; the list holds change records only, so it drops none.)
\<close>

fun collect :: "('a \<Rightarrow> exn + change list) \<Rightarrow> 'a list \<Rightarrow> exn + change list" where
  "collect f [] = Inr []"
| "collect f (x # xs) =
     (case f x of
        Inl e \<Rightarrow> Inl e
      | Inr cs \<Rightarrow> (case collect f xs of Inl e \<Rightarrow> Inl e | Inr ds \<Rightarrow> Inr (cs @ ds)))"

function diffValues ::
  "(jsval \<Rightarrow> bool) \<Rightarrow> world \<Rightarrow> jsval \<Rightarrow> jsval \<Rightarrow> string \<Rightarrow> int \<Rightarrow> int \<Rightarrow> exn + change list"
where
  "diffValues tav w ov nv currentPath maxD currentDepth =
     (if currentDepth \<ge> maxD then
        (if \<not> isEqual ov nv then cloned_change w currentPath ov nv else Inr [])
      else if isSpecialTypeOrPrimitive tav ov \<or> isSpecialTypeOrPrimitive tav nv then
        (if \<not> isEqual ov nv
         then Inr [\<lparr>path = currentPath, oldValue = ov, newValue = nv\<rparr>]
         else Inr [])
      else if isArray ov \<and> isArray nv then
        (if length (elems ov) \<noteq> length (elems nv) then cloned_change w currentPath ov nv
         else collect
                (\<lambda>i. diffValues tav w (elems ov ! i) (elems nv ! i)
                        (currentPath @ ''['' @ show_nat i @ '']'') maxD (currentDepth + 1))
                [0..<length (elems ov)])
      else if typeof ov = TObject \<and> typeof nv = TObject then
        (case (if length (keys ov) \<noteq> length (keys nv) then Inr True
               else some_not_own nv (keys ov)) of
           Inl e \<Rightarrow> Inl e
         | Inr structural \<Rightarrow>
            (if structural then cloned_change w currentPath ov nv
             else if isEqual ov nv then Inr []
             else collect
                    (\<lambda>key. diffValues tav w (get_prop ov key) (get_prop nv key)
                              (currentPath @ ''.'' @ key) maxD (currentDepth + 1))
                    (keys ov)))
      else
        (if \<not> isEqual ov nv then cloned_change w currentPath ov nv else Inr []))"
  by pat_completeness auto
termination
  by (relation "measure (\<lambda>(tav, w, ov, nv, p, m, d). nat (m - d))") auto

declare diffValues.simps [simp del]

subsection \<open>Registration, inspection, commitment, de-registration\<close>

definition propertyKey_of :: "owner \<Rightarrow> string \<Rightarrow> string" where
  "propertyKey_of ob propertyName = constructor_name ob @ ''.'' @ propertyName"

text \<open>
  \<open>startTrack\<close> reads the property before anything else and outside any
  \<^verbatim>\<open>try\<close>; the deep copy is inside one. The result is the tracker after the call and
  either the exception that left the call or the value returned.
\<close>

definition startTrack ::
  "world \<Rightarrow> tracker \<Rightarrow> oid \<Rightarrow> string \<Rightarrow> int option \<Rightarrow> tracker \<times> (exn + jsval)"
where
  "startTrack w T obj prop maxDepthArg =
     (let maxD = (case maxDepthArg of None \<Rightarrow> defaultMaxDepth | Some m \<Rightarrow> m);
          propertyKey = propertyKey_of (objects w obj) prop
      in case getter (objects w obj) prop of
           Inl e \<Rightarrow> (T, Inl e)
         | Inr currentValue \<Rightarrow>
            (let existingInfo = map_of (trackedProperties T) propertyKey;
                 tp1 =
                   (if (case existingInfo of
                          None \<Rightarrow> False
                        | Some info \<Rightarrow> deref w (parentObjRef info) = Some obj)
                    then AList.delete propertyKey (trackedProperties T)
                    else if propertyKey \<in> fst ` set (trackedProperties T)
                    then AList.delete propertyKey (trackedProperties T)
                    else trackedProperties T)
             in case try_cloneDeep w currentValue of
                  Inl e \<Rightarrow> (T\<lparr>trackedProperties := tp1\<rparr>, Inr currentValue)
                | Inr snapshot \<Rightarrow>
                    (T\<lparr>trackedProperties :=
                         AList.update propertyKey
                           \<lparr>parentObjRef = obj, property = prop,
                            originalValueSnapshot = snapshot, maxDepth = maxD\<rparr>
                           tp1\<rparr>,
                     Inr currentValue)))"

text \<open>
  The loop of \<open>peekChanges\<close> over the entries of the map, with the tracker and the
  changes found so far. Deleting the entry being visited does not disturb the iteration.
\<close>

fun peek_loop ::
  "world \<Rightarrow> (string \<times> trackedPropertyInfo) list \<Rightarrow> tracker \<Rightarrow> change list
     \<Rightarrow> tracker \<times> (exn + change list)"
where
  "peek_loop w [] T allChanges = (T, Inr allChanges)"
| "peek_loop w ((propertyKey, trackedInfo) # rest) T allChanges =
     (case deref w (parentObjRef trackedInfo) of
        None \<Rightarrow>
          peek_loop w rest
            (T\<lparr>trackedProperties := AList.delete propertyKey (trackedProperties T)\<rparr>)
            allChanges
      | Some parentObj \<Rightarrow>
         (case getter (objects w parentObj) (property trackedInfo) of
            Inl e \<Rightarrow> peek_loop w rest T allChanges
          | Inr currentValue \<Rightarrow>
             (if \<not> isEqual currentValue (originalValueSnapshot trackedInfo) then
                (case diffValues (treatAsValue T) w (originalValueSnapshot trackedInfo)
                        currentValue (property trackedInfo) (maxDepth trackedInfo) 0 of
                   Inl e \<Rightarrow> (T, Inl e)
                 | Inr propertyChanges \<Rightarrow>
                     peek_loop w rest T (allChanges @ propertyChanges))
              else peek_loop w rest T allChanges)))"

definition peekChanges :: "world \<Rightarrow> tracker \<Rightarrow> tracker \<times> (exn + change list)" where
  "peekChanges w T = peek_loop w (trackedProperties T) T []"

fun update_loop ::
  "world \<Rightarrow> (string \<times> trackedPropertyInfo) list \<Rightarrow> tracker \<Rightarrow> tracker"
where
  "update_loop w [] T = T"
| "update_loop w ((propertyKey, trackedInfo) # rest) T =
     (case deref w (parentObjRef trackedInfo) of
        None \<Rightarrow>
          update_loop w rest
            (T\<lparr>trackedProperties := AList.delete propertyKey (trackedProperties T)\<rparr>)
      | Some parentObj \<Rightarrow>
         (case getter (objects w parentObj) (property trackedInfo) of
            Inl e \<Rightarrow> update_loop w rest T
          | Inr currentValue \<Rightarrow>
             (case try_cloneDeep w currentValue of
                Inr snapshot \<Rightarrow>
                  update_loop w rest
                    (T\<lparr>trackedProperties :=
                         AList.update propertyKey
                           (trackedInfo\<lparr>originalValueSnapshot := snapshot\<rparr>)
                           (trackedProperties T)\<rparr>)
              | Inl e \<Rightarrow>
                  update_loop w rest
                    (T\<lparr>trackedProperties :=
                         AList.delete propertyKey (trackedProperties T)\<rparr>))))"

definition updateSnapshots :: "world \<Rightarrow> tracker \<Rightarrow> tracker" where
  "updateSnapshots w T = update_loop w (trackedProperties T) T"

definition stopTrack :: "world \<Rightarrow> tracker \<Rightarrow> oid \<Rightarrow> string \<Rightarrow> tracker" where
  "stopTrack w T obj prop =
     (let propertyKey = propertyKey_of (objects w obj) prop
      in case map_of (trackedProperties T) propertyKey of
           None \<Rightarrow> T
         | Some trackedInfo \<Rightarrow>
             (if deref w (parentObjRef trackedInfo) = Some obj
              then T\<lparr>trackedProperties := AList.delete propertyKey (trackedProperties T)\<rparr>
              else T))"

definition stopAllTracks :: "tracker \<Rightarrow> tracker" where
  "stopAllTracks T = T\<lparr>trackedProperties := []\<rparr>"

subsection \<open>Reachable trackers\<close>

text \<open>
  The trackers a program can hold: a new one, and what each public operation leaves
  behind, whatever the world looks like at the time of the call.
\<close>

inductive reachable :: "tracker \<Rightarrow> bool" where
  reach_new: "reachable (new_tracker opt)"
| reach_startTrack: "reachable T \<Longrightarrow> reachable (fst (startTrack w T obj prop md))"
| reach_peekChanges: "reachable T \<Longrightarrow> reachable (fst (peekChanges w T))"
| reach_updateSnapshots: "reachable T \<Longrightarrow> reachable (updateSnapshots w T)"
| reach_stopTrack: "reachable T \<Longrightarrow> reachable (stopTrack w T obj prop)"
| reach_stopAllTracks: "reachable T \<Longrightarrow> reachable (stopAllTracks T)"

subsection \<open>Settled entries\<close>

text \<open>
  An entry is settled in a world when \<open>peekChanges\<close> has nothing to report for it: its
  owner is collected, or its property cannot be read, or the value read is deeply equal
  to the baseline.
\<close>

definition settled :: "world \<Rightarrow> trackedPropertyInfo \<Rightarrow> bool" where
  "settled w e =
     (collected w (parentObjRef e)
      \<or> (case getter (objects w (parentObjRef e)) (property e) of
            Inl err \<Rightarrow> True
          | Inr v \<Rightarrow> isEqual v (originalValueSnapshot e)))"

section \<open>Positions inside a value\<close>

text \<open>
  A position below a tracked property is a list of segments, an index for an array and a
  key for an object. \<open>value_at\<close> reads the value at a position, \<open>replace_at\<close> gives
  the value in which the value at that position, and nothing else, is replaced, and
  \<open>render\<close> writes the position after a path the way the differ extends paths.
\<close>

datatype seg = Index nat | Key string

fun child :: "jsval \<Rightarrow> seg \<Rightarrow> jsval option" where
  "child (JArr xs) (Index i) = (if i < length xs then Some (xs ! i) else None)"
| "child (JObj c fs) (Key k) = map_of fs k"
| "child v s = None"

fun value_at :: "jsval \<Rightarrow> seg list \<Rightarrow> jsval option" where
  "value_at v [] = Some v"
| "value_at v (s # ss) = (case child v s of None \<Rightarrow> None | Some u \<Rightarrow> value_at u ss)"

fun replace_child :: "jsval \<Rightarrow> seg \<Rightarrow> jsval \<Rightarrow> jsval" where
  "replace_child (JArr xs) (Index i) u = JArr (xs[i := u])"
| "replace_child (JObj c fs) (Key k) u = JObj c (AList.update k u fs)"
| "replace_child v s u = v"

fun replace_at :: "jsval \<Rightarrow> seg list \<Rightarrow> jsval \<Rightarrow> jsval option" where
  "replace_at v [] l = Some l"
| "replace_at v (s # ss) l =
     (case child v s of
        None \<Rightarrow> None
      | Some x \<Rightarrow>
         (case replace_at x ss l of
            None \<Rightarrow> None
          | Some u \<Rightarrow> Some (replace_child v s u)))"

fun render_seg :: "string \<Rightarrow> seg \<Rightarrow> string" where
  "render_seg p (Index i) = p @ ''['' @ show_nat i @ '']''"
| "render_seg p (Key k) = p @ ''.'' @ k"

fun render :: "string \<Rightarrow> seg list \<Rightarrow> string" where
  "render p [] = p"
| "render p (s # ss) = render (render_seg p s) ss"

text \<open>Every value strictly above the end of the position is a container that is not atomic.\<close>

fun plain_path :: "(jsval \<Rightarrow> bool) \<Rightarrow> jsval \<Rightarrow> seg list \<Rightarrow> bool" where
  "plain_path tav v [] = True"
| "plain_path tav v (s # ss) =
     (\<not> isSpecialTypeOrPrimitive tav v
      \<and> (case child v s of None \<Rightarrow> False | Some u \<Rightarrow> plain_path tav u ss))"

section \<open>Example inputs\<close>

text \<open>A world in which nothing is collected and every deep copy succeeds.\<close>

definition quiet_world :: world where
  "quiet_world =
     \<lparr>objects = (\<lambda>i. \<lparr>constructor_name = ''Object'', getter = (\<lambda>k. Inr JUndefined)\<rparr>),
      collected = (\<lambda>i. False),
      unclonable = (\<lambda>v. False)\<rparr>"

text \<open>The predicate of the test suite: instances of \<^verbatim>\<open>CustomId\<close> are atomic.\<close>

fun isCustomValueType :: "jsval \<Rightarrow> bool" where
  "isCustomValueType (JObj c fs) = (c = ''CustomId'')"
| "isCustomValueType v = False"

text \<open>
  Owners of class \<^verbatim>\<open>Object\<close>: owner 0 has a property \<^verbatim>\<open>prop\<close> whose getter throws;
  owner 3 reads \<^verbatim>\<open>name\<close> as an object that \<^verbatim>\<open>cloneDeep\<close> cannot copy; every other
  owner reads \<^verbatim>\<open>name\<close> as a string; any other property reads undefined.
\<close>

definition example_owner :: "oid \<Rightarrow> owner" where
  "example_owner i =
     \<lparr>constructor_name = ''Object'',
      getter = (\<lambda>k. if i = 0 \<and> k = ''prop'' then Inl PropertyReadFailure
                    else if i = 3 \<and> k = ''name'' then Inr (JObj ''Revoked'' [])
                    else if k = ''name'' then Inr (JStr ''Object One'')
                    else Inr JUndefined)\<rparr>"

definition example_world :: world where
  "example_world =
     \<lparr>objects = example_owner, collected = (\<lambda>i. False),
      unclonable = (\<lambda>v. v = JObj ''Revoked'' [])\<rparr>"

text \<open>
  A tracker holding one entry for owner 1 whose baseline is older than the value the owner
  has now.
\<close>

definition stale_tracker :: tracker where
  "stale_tracker =
     \<lparr>trackedProperties =
        [(''Object.name'',
          \<lparr>parentObjRef = 1, property = ''name'',
           originalValueSnapshot = JStr ''Old Name'', maxDepth = 3\<rparr>)],
      treatAsValue = (\<lambda>v. False)\<rparr>"

text \<open>A tracker holding one entry for owner 0, whose property \<^verbatim>\<open>prop\<close> throws when read.\<close>

definition throwing_tracker :: tracker where
  "throwing_tracker =
     \<lparr>trackedProperties =
        [(''Object.prop'',
          \<lparr>parentObjRef = 0, property = ''prop'',
           originalValueSnapshot = JStr ''initial'', maxDepth = 3\<rparr>)],
      treatAsValue = (\<lambda>v. False)\<rparr>"

text \<open>
  An owner whose property \<^verbatim>\<open>data\<close> holds a counter and a record with a field named
  \<^verbatim>\<open>hasOwnProperty\<close>, and a tracker whose baseline for it differs in the counter only.
\<close>

definition shadow_world :: world where
  "shadow_world =
     \<lparr>objects =
        (\<lambda>i. \<lparr>constructor_name = ''Object'',
              getter =
                (\<lambda>k. Inr (JObj ''Object''
                            [(''a'', JNum 2),
                             (''meta'', JObj ''Object'' [(''hasOwnProperty'', JNum 1)])]))\<rparr>),
      collected = (\<lambda>i. False),
      unclonable = (\<lambda>v. False)\<rparr>"

definition shadow_tracker :: tracker where
  "shadow_tracker =
     \<lparr>trackedProperties =
        [(''Object.data'',
          \<lparr>parentObjRef = 1, property = ''data'',
           originalValueSnapshot =
             JObj ''Object''
               [(''a'', JNum 1), (''meta'', JObj ''Object'' [(''hasOwnProperty'', JNum 1)])],
           maxDepth = 3\<rparr>)],
      treatAsValue = (\<lambda>v. False)\<rparr>"

text \<open>
  An address with nested details, and the same address after the second note is changed.
\<close>

definition address_old :: jsval where
  "address_old =
     JObj ''Object''
       [(''street'', JStr ''123 Main St''),
        (''details'',
         JObj ''Object''
           [(''floor'', JNum 1), (''notes'', JArr [JStr ''first'', JStr ''second''])])]"

definition address_new :: jsval where
  "address_new =
     JObj ''Object''
       [(''street'', JStr ''123 Main St''),
        (''details'',
         JObj ''Object''
           [(''floor'', JNum 1), (''notes'', JArr [JStr ''first'', JStr ''changed''])])]"

section \<open>Deep equality and the differ\<close>

lemma collect_all_empty:
  "(\<And>x. x \<in> set xs \<Longrightarrow> f x = Inr []) \<Longrightarrow> collect f xs = Inr []"
  by (induction xs) simp_all

lemma collect_empty_or_throws:
  "(\<And>x. x \<in> set xs \<Longrightarrow> f x = Inr [] \<or> f x = Inl e) \<Longrightarrow>
   collect f xs = Inr [] \<or> collect f xs = Inl e"
proof (induction xs)
  case Nil
  show ?case by simp
next
  case (Cons x xs)
  from Cons.prems have "f x = Inr [] \<or> f x = Inl e" by simp
  moreover from Cons.prems have "collect f xs = Inr [] \<or> collect f xs = Inl e"
    by (intro Cons.IH) simp
  ultimately show ?case by auto
qed

lemma collect_concat:
  "(\<And>x. x \<in> set xs \<Longrightarrow> f x = Inr (g x)) \<Longrightarrow> collect f xs = Inr (concat (map g xs))"
  by (induction xs) simp_all

lemma some_not_own_plain:
  "''hasOwnProperty'' \<notin> set (keys v) \<Longrightarrow>
   some_not_own v ks = Inr (list_ex (\<lambda>k. \<not> has_own v k) ks)"
  by (induction ks) (simp_all add: hasOwnProperty_def)

lemma some_not_own_shadowed:
  "''hasOwnProperty'' \<in> set (keys v) \<Longrightarrow> ks \<noteq> [] \<Longrightarrow> some_not_own v ks = Inl TypeError"
  by (cases ks) (simp_all add: hasOwnProperty_def)

lemma isEqual_JArr_left:
  "isEqual (JArr xs) nv \<Longrightarrow> \<exists>ys. nv = JArr ys \<and> list_all2 isEqual xs ys"
  by (cases nv) simp_all

lemma isEqual_JObj_left:
  "isEqual (JObj c fs) nv \<Longrightarrow>
     \<exists>gs. nv = JObj c gs \<and> length fs = length gs
        \<and> (\<forall>(k, v) \<in> set fs. \<exists>u. map_of gs k = Some u \<and> isEqual v u)"
  by (cases nv) (auto simp: list_all_iff split: option.splits)

lemma isEqual_same_keys:
  assumes "isEqual ov nv" "typeof ov = TObject" "typeof nv = TObject"
    "\<not> (isArray ov \<and> isArray nv)" "ov \<noteq> JNull" "\<not> instanceofDate ov"
  shows "length (keys ov) = length (keys nv)
           \<and> \<not> list_ex (\<lambda>k. \<not> has_own nv k) (keys ov)"
proof (cases ov)
  case (JObj c fs)
  from isEqual_JObj_left [OF assms(1) [unfolded JObj]]
  obtain gs where nv: "nv = JObj c gs" and len: "length fs = length gs"
    and each: "\<forall>(k, v) \<in> set fs. \<exists>u. map_of gs k = Some u \<and> isEqual v u"
    by blast
  have "k \<in> fst ` set gs" if "k \<in> fst ` set fs" for k
  proof -
    from that obtain v where "(k, v) \<in> set fs" by auto
    with each obtain u where "map_of gs k = Some u" by auto
    then show ?thesis by (auto dest: map_of_SomeD intro: rev_image_eqI)
  qed
  then show ?thesis
    using len by (auto simp: JObj nv keys_def has_own_def list_ex_iff)
next
  case (JArr xs)
  with assms show ?thesis
    by (cases nv) simp_all
qed (use assms in auto)

subsection \<open>The branches of the differ\<close>

lemma diffValues_ceiling:
  "maxD \<le> d \<Longrightarrow>
   diffValues tav w ov nv p maxD d =
     (if \<not> isEqual ov nv then cloned_change w p ov nv else Inr [])"
  by (subst diffValues.simps) simp

lemma diffValues_special:
  "\<not> maxD \<le> d \<Longrightarrow> isSpecialTypeOrPrimitive tav ov \<or> isSpecialTypeOrPrimitive tav nv \<Longrightarrow>
   diffValues tav w ov nv p maxD d =
     (if \<not> isEqual ov nv then Inr [\<lparr>path = p, oldValue = ov, newValue = nv\<rparr>] else Inr [])"
  by (subst diffValues.simps) simp

lemma diffValues_arrays:
  "\<not> maxD \<le> d \<Longrightarrow> \<not> isSpecialTypeOrPrimitive tav (JArr xs) \<Longrightarrow>
   \<not> isSpecialTypeOrPrimitive tav (JArr ys) \<Longrightarrow>
   diffValues tav w (JArr xs) (JArr ys) p maxD d =
     (if length xs \<noteq> length ys then cloned_change w p (JArr xs) (JArr ys)
      else collect
             (\<lambda>i. diffValues tav w (xs ! i) (ys ! i) (p @ ''['' @ show_nat i @ '']'') maxD (d + 1))
             [0..<length xs])"
  by (subst diffValues.simps) simp

lemma nonspecial_object:
  "\<not> isSpecialTypeOrPrimitive tav v \<Longrightarrow> typeof v = TObject \<and> v \<noteq> JNull \<and> \<not> instanceofDate v"
  by (auto simp: isSpecialTypeOrPrimitive_def split: if_splits)

lemma diffValues_objects_general:
  assumes "\<not> maxD \<le> d" "\<not> isSpecialTypeOrPrimitive tav ov" "\<not> isSpecialTypeOrPrimitive tav nv"
    and "isArray ov \<and> isArray nv \<longleftrightarrow> False"
  shows "diffValues tav w ov nv p maxD d =
     (case (if length (keys ov) \<noteq> length (keys nv) then Inr True
            else some_not_own nv (keys ov)) of
        Inl e \<Rightarrow> Inl e
      | Inr structural \<Rightarrow>
         (if structural then cloned_change w p ov nv
          else if isEqual ov nv then Inr []
          else collect
                 (\<lambda>key. diffValues tav w (get_prop ov key) (get_prop nv key)
                           (p @ ''.'' @ key) maxD (d + 1))
                 (keys ov)))"
proof -
  from assms(2,3) have ty: "typeof ov = TObject" "typeof nv = TObject"
    by (simp_all add: nonspecial_object)
  show ?thesis
    by (subst diffValues.simps) (simp only: assms ty if_False if_True simp_thms)
qed

text \<open>The branch for objects when the call of \<^verbatim>\<open>hasOwnProperty\<close> finds the method.\<close>

lemma diffValues_objects:
  assumes "\<not> maxD \<le> d" "\<not> isSpecialTypeOrPrimitive tav ov" "\<not> isSpecialTypeOrPrimitive tav nv"
    and "isArray ov \<and> isArray nv \<longleftrightarrow> False"
    and "''hasOwnProperty'' \<notin> set (keys nv)"
  shows "diffValues tav w ov nv p maxD d =
     (if length (keys ov) \<noteq> length (keys nv) \<or> list_ex (\<lambda>k. \<not> has_own nv k) (keys ov)
      then cloned_change w p ov nv
      else if isEqual ov nv then Inr []
      else collect
             (\<lambda>key. diffValues tav w (get_prop ov key) (get_prop nv key)
                       (p @ ''.'' @ key) maxD (d + 1))
             (keys ov))"
  unfolding diffValues_objects_general [OF assms(1-4)] some_not_own_plain [OF assms(5)]
  by simp

text \<open>The same branch when an own property hides the method and the key lists are as long.\<close>

lemma diffValues_objects_shadowed:
  assumes "\<not> maxD \<le> d" "\<not> isSpecialTypeOrPrimitive tav ov" "\<not> isSpecialTypeOrPrimitive tav nv"
    and "isArray ov \<and> isArray nv \<longleftrightarrow> False"
    and "''hasOwnProperty'' \<in> set (keys nv)" "length (keys ov) = length (keys nv)"
  shows "diffValues tav w ov nv p maxD d = Inl TypeError"
proof -
  from assms(5,6) have "keys ov \<noteq> []" by auto
  from some_not_own_shadowed [OF assms(5) this] assms(6) show ?thesis
    unfolding diffValues_objects_general [OF assms(1-4)] by simp
qed

text \<open>
  On deeply equal values the differ returns the empty list, unless it throws at the call
  of \<^verbatim>\<open>hasOwnProperty\<close>.
\<close>

lemma diffValues_isEqual_cases:
  "isEqual ov nv \<Longrightarrow>
   diffValues tav w ov nv p m d = Inr [] \<or> diffValues tav w ov nv p m d = Inl TypeError"
proof (induction tav w ov nv p m d rule: diffValues.induct)
  case (1 tav w ov nv p m d)
  show ?case
  proof (cases "m \<le> d")
    case True
    with "1.prems" show ?thesis by (simp add: diffValues_ceiling)
  next
    case deep: False
    show ?thesis
    proof (cases "isSpecialTypeOrPrimitive tav ov \<or> isSpecialTypeOrPrimitive tav nv")
      case True
      with deep "1.prems" show ?thesis by (simp add: diffValues_special)
    next
      case nonspecial: False
      show ?thesis
      proof (cases "isArray ov \<and> isArray nv")
        case True
        then obtain xs ys where ov: "ov = JArr xs" and nv: "nv = JArr ys"
          by (cases ov; cases nv) simp_all
        from "1.prems" have l2: "list_all2 isEqual xs ys" by (simp add: ov nv)
        then have len: "length xs = length ys" by (rule list_all2_lengthD)
        have "diffValues tav w (xs ! i) (ys ! i)
                (p @ ''['' @ show_nat i @ '']'') m (d + 1) = Inr []
              \<or> diffValues tav w (xs ! i) (ys ! i)
                (p @ ''['' @ show_nat i @ '']'') m (d + 1) = Inl TypeError"
          if "i \<in> set [0..<length xs]" for i
        proof -
          have "diffValues tav w (elems ov ! i) (elems nv ! i)
                (p @ ''['' @ show_nat i @ '']'') m (d + 1) = Inr []
              \<or> diffValues tav w (elems ov ! i) (elems nv ! i)
                (p @ ''['' @ show_nat i @ '']'') m (d + 1) = Inl TypeError"
          proof (rule "1.IH"(1) [OF deep nonspecial True])
            show "\<not> length (elems ov) \<noteq> length (elems nv)" by (simp add: ov nv len)
            from that l2 show "isEqual (elems ov ! i) (elems nv ! i)"
              by (simp add: ov nv list_all2_nthD)
          qed
          then show ?thesis by (simp add: ov nv)
        qed
        then have "collect
                (\<lambda>i. diffValues tav w (xs ! i) (ys ! i)
                        (p @ ''['' @ show_nat i @ '']'') m (d + 1))
                [0..<length xs] = Inr []
             \<or> collect
                (\<lambda>i. diffValues tav w (xs ! i) (ys ! i)
                        (p @ ''['' @ show_nat i @ '']'') m (d + 1))
                [0..<length xs] = Inl TypeError"
          by (rule collect_empty_or_throws)
        with deep nonspecial len show ?thesis
          unfolding ov nv by (simp add: diffValues_arrays)
      next
        case notarr: False
        from nonspecial have ns: "\<not> isSpecialTypeOrPrimitive tav ov"
          "\<not> isSpecialTypeOrPrimitive tav nv" by simp_all
        from ns have ty: "typeof ov = TObject" "typeof nv = TObject"
          and nn: "ov \<noteq> JNull" "\<not> instanceofDate ov"
          using nonspecial_object by blast+
        from isEqual_same_keys [OF "1.prems" ty notarr nn]
        have len: "length (keys ov) = length (keys nv)"
          and same: "\<not> list_ex (\<lambda>k. \<not> has_own nv k) (keys ov)"
          by simp_all
        from notarr have na: "isArray ov \<and> isArray nv \<longleftrightarrow> False" by simp
        show ?thesis
        proof (cases "''hasOwnProperty'' \<in> set (keys nv)")
          case True
          from diffValues_objects_shadowed [OF deep ns na True len] show ?thesis by simp
        next
          case False
          show ?thesis
            unfolding diffValues_objects [OF deep ns na False] using len same "1.prems" by simp
        qed
      qed
    qed
  qed
qed

lemma unshadowed_keys: "unshadowed v \<Longrightarrow> ''hasOwnProperty'' \<notin> set (keys v)"
proof (cases v)
  case (JArr xs)
  have "''hasOwnProperty'' \<noteq> show_nat i" for i
    by (subst show_nat.simps) (auto simp: nth_Cons' Let_def)
  then show ?thesis by (auto simp: JArr keys_def)
qed (simp_all add: keys_def)

lemma diffValues_isEqual:
  "isEqual ov nv \<Longrightarrow> unshadowed nv \<Longrightarrow> diffValues tav w ov nv p m d = Inr []"
proof (induction tav w ov nv p m d rule: diffValues.induct)
  case (1 tav w ov nv p m d)
  show ?case
  proof (cases "m \<le> d")
    case True
    with "1.prems" show ?thesis by (simp add: diffValues_ceiling)
  next
    case deep: False
    show ?thesis
    proof (cases "isSpecialTypeOrPrimitive tav ov \<or> isSpecialTypeOrPrimitive tav nv")
      case True
      with deep "1.prems" show ?thesis by (simp add: diffValues_special)
    next
      case nonspecial: False
      show ?thesis
      proof (cases "isArray ov \<and> isArray nv")
        case True
        then obtain xs ys where ov: "ov = JArr xs" and nv: "nv = JArr ys"
          by (cases ov; cases nv) simp_all
        from "1.prems" have l2: "list_all2 isEqual xs ys" by (simp add: ov nv)
        then have len: "length xs = length ys" by (rule list_all2_lengthD)
        have "diffValues tav w (xs ! i) (ys ! i)
                (p @ ''['' @ show_nat i @ '']'') m (d + 1) = Inr []"
          if "i \<in> set [0..<length xs]" for i
        proof -
          have "diffValues tav w (elems ov ! i) (elems nv ! i)
                (p @ ''['' @ show_nat i @ '']'') m (d + 1) = Inr []"
          proof (rule "1.IH"(1) [OF deep nonspecial True])
            show "\<not> length (elems ov) \<noteq> length (elems nv)" by (simp add: ov nv len)
            from that l2 show "isEqual (elems ov ! i) (elems nv ! i)"
              by (simp add: ov nv list_all2_nthD)
            from that "1.prems"(2) len show "unshadowed (elems nv ! i)"
              by (simp add: nv list_all_length)
          qed
          then show ?thesis by (simp add: ov nv)
        qed
        then have "collect
                (\<lambda>i. diffValues tav w (xs ! i) (ys ! i)
                        (p @ ''['' @ show_nat i @ '']'') m (d + 1))
                [0..<length xs] = Inr []"
          by (rule collect_all_empty)
        with deep nonspecial len show ?thesis
          unfolding ov nv by (simp add: diffValues_arrays)
      next
        case notarr: False
        from nonspecial have ns: "\<not> isSpecialTypeOrPrimitive tav ov"
          "\<not> isSpecialTypeOrPrimitive tav nv" by simp_all
        from ns have ty: "typeof ov = TObject" "typeof nv = TObject"
          and nn: "ov \<noteq> JNull" "\<not> instanceofDate ov"
          using nonspecial_object by blast+
        from isEqual_same_keys [OF "1.prems"(1) ty notarr nn]
        have same: "\<not> (length (keys ov) \<noteq> length (keys nv)
                 \<or> list_ex (\<lambda>k. \<not> has_own nv k) (keys ov))"
          by simp
        from notarr have na: "isArray ov \<and> isArray nv \<longleftrightarrow> False" by simp
        from "1.prems"(2) have plain: "''hasOwnProperty'' \<notin> set (keys nv)"
          by (rule unshadowed_keys)
        show ?thesis
          unfolding diffValues_objects [OF deep ns na plain] using same "1.prems"(1) by simp
      qed
    qed
  qed
qed

text \<open>
  C10: two deeply equal values give the empty list at every level of the recursion. The
  branch for objects asks \<^verbatim>\<open>newValue.hasOwnProperty(k)\<close> before it tests equality: two
  equal objects with an own property named \<^verbatim>\<open>hasOwnProperty\<close>, compared below the
  ceiling, end the differ with a \<^verbatim>\<open>TypeError\<close>, where the same pair at the ceiling gives
  the empty list. Such a pair one level down, next to a field that changed, ends
  \<open>peekChanges\<close> with that exception.
\<close>

theorem diffValues_equal_throws:
  "isEqual (JObj ''Object'' [(''hasOwnProperty'', JNum 1)])
           (JObj ''Object'' [(''hasOwnProperty'', JNum 1)])
   \<and> diffValues (\<lambda>v. False) quiet_world
        (JObj ''Object'' [(''hasOwnProperty'', JNum 1)])
        (JObj ''Object'' [(''hasOwnProperty'', JNum 1)]) ''data.meta'' 3 1 = Inl TypeError
   \<and> diffValues (\<lambda>v. False) quiet_world
        (JObj ''Object'' [(''hasOwnProperty'', JNum 1)])
        (JObj ''Object'' [(''hasOwnProperty'', JNum 1)]) ''data.meta'' 1 1 = Inr []
   \<and> peekChanges shadow_world shadow_tracker = (shadow_tracker, Inl TypeError)"
  by (simp add: diffValues.simps isSpecialTypeOrPrimitive_def keys_def hasOwnProperty_def
        has_own_def get_prop_def peekChanges_def shadow_world_def shadow_tracker_def deref_def)

section \<open>Structural changes\<close>

lemma cloneDeep_id: "cloneDeep v = v"
proof (induction v)
  case (JArr xs)
  then show ?case by (simp add: map_idI)
next
  case (JObj c fs)
  have "map (\<lambda>(k, v). (k, cloneDeep v)) fs = fs"
    by (rule map_idI) (auto simp: JObj.IH split: prod.splits)
  then show ?case by simp
qed simp_all

lemma cloned_change_ok:
  "\<not> unclonable w ov \<Longrightarrow> \<not> unclonable w nv \<Longrightarrow>
   cloned_change w p ov nv = Inr [\<lparr>path = p, oldValue = cloneDeep ov, newValue = cloneDeep nv\<rparr>]"
  by (simp add: cloned_change_def try_cloneDeep_def)

lemma structural_iff_key_sets:
  assumes "distinct (map fst fs)" "distinct (map fst gs)"
  shows "(length (keys (JObj c fs)) \<noteq> length (keys (JObj c' gs))
          \<or> list_ex (\<lambda>k. \<not> has_own (JObj c' gs) k) (keys (JObj c fs)))
         \<longleftrightarrow> set (map fst fs) \<noteq> set (map fst gs)"
proof -
  have cf: "card (set (map fst fs)) = length fs" and cg: "card (set (map fst gs)) = length gs"
    using distinct_card [OF assms(1)] distinct_card [OF assms(2)] by simp_all
  show ?thesis
  proof
    assume "set (map fst fs) \<noteq> set (map fst gs)"
    show "length (keys (JObj c fs)) \<noteq> length (keys (JObj c' gs))
          \<or> list_ex (\<lambda>k. \<not> has_own (JObj c' gs) k) (keys (JObj c fs))"
    proof (rule ccontr)
      assume "\<not> ?thesis"
      then have len: "length fs = length gs" and sub: "set (map fst fs) \<subseteq> set (map fst gs)"
        by (auto simp: keys_def has_own_def list_ex_iff)
      from sub have "set (map fst fs) = set (map fst gs)"
        by (rule card_subset_eq [OF finite_set]) (simp only: cf cg len)
      with \<open>set (map fst fs) \<noteq> set (map fst gs)\<close> show False by contradiction
    qed
  next
    assume "length (keys (JObj c fs)) \<noteq> length (keys (JObj c' gs))
          \<or> list_ex (\<lambda>k. \<not> has_own (JObj c' gs) k) (keys (JObj c fs))"
    then show "set (map fst fs) \<noteq> set (map fst gs)"
    proof
      assume "length (keys (JObj c fs)) \<noteq> length (keys (JObj c' gs))"
      then have "length fs \<noteq> length gs" by (simp add: keys_def)
      with cf cg show ?thesis by metis
    next
      assume "list_ex (\<lambda>k. \<not> has_own (JObj c' gs) k) (keys (JObj c fs))"
      then show ?thesis by (auto simp: keys_def has_own_def list_ex_iff)
    qed
  qed
qed

lemma isEqual_fields:
  assumes "isEqual (JObj c fs) (JObj c' gs)" "key \<in> set (keys (JObj c fs))"
  shows "isEqual (get_prop (JObj c fs) key) (get_prop (JObj c' gs) key)"
proof -
  from assms(2) obtain v where v: "map_of fs key = Some v"
    by (auto simp: keys_def dest: weak_map_of_SomeI)
  then have "(key, v) \<in> set fs" by (rule map_of_SomeD)
  with assms(1) obtain u where "map_of gs key = Some u" "isEqual v u"
    by (auto simp: list_all_iff split: option.splits)
  with v show ?thesis by (simp add: get_prop_def)
qed

lemma diffValues_arrays_structural:
  assumes "d < m"
    and "\<not> isSpecialTypeOrPrimitive tav (JArr xs)" "\<not> isSpecialTypeOrPrimitive tav (JArr ys)"
    and "length xs \<noteq> length ys"
    and "\<not> unclonable w (JArr xs)" "\<not> unclonable w (JArr ys)"
  shows "diffValues tav w (JArr xs) (JArr ys) p m d =
           Inr [\<lparr>path = p, oldValue = cloneDeep (JArr xs), newValue = cloneDeep (JArr ys)\<rparr>]"
proof -
  from assms(1) have deep: "\<not> m \<le> d" by simp
  show ?thesis
    unfolding diffValues_arrays [OF deep assms(2,3)] cloned_change_ok [OF assms(5,6)]
    using assms(4) by simp
qed

lemma diffValues_arrays_elementwise:
  assumes "d < m"
    and "\<not> isSpecialTypeOrPrimitive tav (JArr xs)" "\<not> isSpecialTypeOrPrimitive tav (JArr ys)"
    and "length xs = length ys"
    and "\<forall>i<length xs.
           diffValues tav w (xs ! i) (ys ! i) (p @ ''['' @ show_nat i @ '']'') m (d + 1)
             = Inr (cs i)"
  shows "diffValues tav w (JArr xs) (JArr ys) p m d = Inr (concat (map cs [0..<length xs]))"
proof -
  from assms(1) have deep: "\<not> m \<le> d" by simp
  have "collect
          (\<lambda>i. diffValues tav w (xs ! i) (ys ! i) (p @ ''['' @ show_nat i @ '']'') m (d + 1))
          [0..<length xs] = Inr (concat (map cs [0..<length xs]))"
    by (rule collect_concat) (use assms(5) in simp)
  with assms(4) show ?thesis
    unfolding diffValues_arrays [OF deep assms(2,3)] by simp
qed

lemma diffValues_objects_structural:
  assumes "d < m"
    and "\<not> isSpecialTypeOrPrimitive tav (JObj c fs)" "\<not> isSpecialTypeOrPrimitive tav (JObj c' gs)"
    and "distinct (map fst fs)" "distinct (map fst gs)"
    and "''hasOwnProperty'' \<notin> fst ` set gs"
    and "set (map fst fs) \<noteq> set (map fst gs)"
    and "\<not> unclonable w (JObj c fs)" "\<not> unclonable w (JObj c' gs)"
  shows "diffValues tav w (JObj c fs) (JObj c' gs) p m d =
           Inr [\<lparr>path = p, oldValue = cloneDeep (JObj c fs),
                 newValue = cloneDeep (JObj c' gs)\<rparr>]"
proof -
  from assms(1) have deep: "\<not> m \<le> d" by simp
  have na: "isArray (JObj c fs) \<and> isArray (JObj c' gs) \<longleftrightarrow> False" by simp
  from assms(6) have plain: "''hasOwnProperty'' \<notin> set (keys (JObj c' gs))"
    by (simp add: keys_def)
  from assms(7) structural_iff_key_sets [OF assms(4,5), of c c']
  have "length (keys (JObj c fs)) \<noteq> length (keys (JObj c' gs))
          \<or> list_ex (\<lambda>k. \<not> has_own (JObj c' gs) k) (keys (JObj c fs))"
    by blast
  then show ?thesis
    unfolding diffValues_objects [OF deep assms(2,3) na plain] cloned_change_ok [OF assms(8,9)]
    by (simp only: if_True)
qed

lemma diffValues_objects_fieldwise:
  assumes "d < m"
    and "\<not> isSpecialTypeOrPrimitive tav (JObj c fs)" "\<not> isSpecialTypeOrPrimitive tav (JObj c' gs)"
    and "distinct (map fst fs)" "distinct (map fst gs)"
    and "''hasOwnProperty'' \<notin> fst ` set gs"
    and "set (map fst fs) = set (map fst gs)"
    and "\<forall>key \<in> set (map fst fs).
           diffValues tav w (get_prop (JObj c fs) key) (get_prop (JObj c' gs) key)
             (p @ ''.'' @ key) m (d + 1) = Inr (ks key)"
  shows "diffValues tav w (JObj c fs) (JObj c' gs) p m d = Inr (concat (map ks (map fst fs)))"
proof -
  from assms(1) have deep: "\<not> m \<le> d" by simp
  have na: "isArray (JObj c fs) \<and> isArray (JObj c' gs) \<longleftrightarrow> False" by simp
  have k: "keys (JObj c fs) = map fst fs" by (simp add: keys_def)
  from assms(6) have plain: "''hasOwnProperty'' \<notin> set (keys (JObj c' gs))"
    by (simp add: keys_def)
  from assms(7) structural_iff_key_sets [OF assms(4,5), of c c']
  have same: "\<not> (length (keys (JObj c fs)) \<noteq> length (keys (JObj c' gs))
          \<or> list_ex (\<lambda>k. \<not> has_own (JObj c' gs) k) (keys (JObj c fs)))"
    by blast
  have rec: "collect
          (\<lambda>key. diffValues tav w (get_prop (JObj c fs) key) (get_prop (JObj c' gs) key)
                    (p @ ''.'' @ key) m (d + 1))
          (keys (JObj c fs)) = Inr (concat (map ks (map fst fs)))"
    unfolding k by (rule collect_concat) (use assms(8) in auto)
  have "concat (map ks (map fst fs)) = []" if eq: "isEqual (JObj c fs) (JObj c' gs)"
  proof -
    have "ks key = []" if "key \<in> set (map fst fs)" for key
    proof -
      from that have "key \<in> set (keys (JObj c fs))" by (simp add: k)
      from isEqual_fields [OF eq this]
      have "isEqual (get_prop (JObj c fs) key) (get_prop (JObj c' gs) key)" .
      from diffValues_isEqual_cases [OF this, of tav w "p @ ''.'' @ key" m "d + 1"]
        assms(8) that
      show ?thesis by auto
    qed
    then show ?thesis by simp
  qed
  with rec same show ?thesis
    unfolding diffValues_objects [OF deep assms(2,3) na plain]
    by (cases "isEqual (JObj c fs) (JObj c' gs)") (simp_all del: isEqual.simps)
qed

text \<open>
  C3, as the code has it by design: below the depth ceiling, for two arrays, and for two
  objects with each key once, that are not atomic. Different lengths, and different key
  sets, give exactly one change at the current path holding deep copies of the two whole
  values. With equal lengths the result is the changes of the elements, compared at
  \<open>path[i]\<close> and depth + 1, appended in the order of the indices; with equal key sets it
  is the changes of the fields, compared at \<open>path.key\<close> and depth + 1, appended in the
  order of the keys of the old object. Nothing is said of a deep copy that throws, of a
  new object with an own property named \<^verbatim>\<open>hasOwnProperty\<close>, or of a comparison one level
  down that throws.
\<close>

theorem structural_aggregation:
  assumes "d < m"
  shows "(\<not> isSpecialTypeOrPrimitive tav (JArr xs) \<and> \<not> isSpecialTypeOrPrimitive tav (JArr ys) \<longrightarrow>
            (length xs \<noteq> length ys \<and> \<not> unclonable w (JArr xs) \<and> \<not> unclonable w (JArr ys) \<longrightarrow>
               diffValues tav w (JArr xs) (JArr ys) p m d =
                 Inr [\<lparr>path = p, oldValue = cloneDeep (JArr xs),
                       newValue = cloneDeep (JArr ys)\<rparr>])
          \<and> (length xs = length ys
              \<and> (\<forall>i<length xs.
                    diffValues tav w (xs ! i) (ys ! i) (p @ ''['' @ show_nat i @ '']'') m (d + 1)
                      = Inr (cs i)) \<longrightarrow>
               diffValues tav w (JArr xs) (JArr ys) p m d
                 = Inr (concat (map cs [0..<length xs]))))
       \<and> (\<not> isSpecialTypeOrPrimitive tav (JObj c fs) \<and> \<not> isSpecialTypeOrPrimitive tav (JObj c' gs)
          \<and> distinct (map fst fs) \<and> distinct (map fst gs)
          \<and> ''hasOwnProperty'' \<notin> fst ` set gs \<longrightarrow>
            (set (map fst fs) \<noteq> set (map fst gs)
              \<and> \<not> unclonable w (JObj c fs) \<and> \<not> unclonable w (JObj c' gs) \<longrightarrow>
               diffValues tav w (JObj c fs) (JObj c' gs) p m d =
                 Inr [\<lparr>path = p, oldValue = cloneDeep (JObj c fs),
                       newValue = cloneDeep (JObj c' gs)\<rparr>])
          \<and> (set (map fst fs) = set (map fst gs)
              \<and> (\<forall>key \<in> set (map fst fs).
                    diffValues tav w (get_prop (JObj c fs) key) (get_prop (JObj c' gs) key)
                      (p @ ''.'' @ key) m (d + 1) = Inr (ks key)) \<longrightarrow>
               diffValues tav w (JObj c fs) (JObj c' gs) p m d
                 = Inr (concat (map ks (map fst fs)))))"
  using diffValues_arrays_structural [OF assms, of tav xs ys w p]
    diffValues_arrays_elementwise [OF assms, of tav xs ys w p cs]
    diffValues_objects_structural [OF assms, of tav c fs c' gs w p]
    diffValues_objects_fieldwise [OF assms, of tav c fs c' gs w p ks]
  by blast

text \<open>
  The examples of the documentation: a tag is pushed, two tags are replaced, a field is
  removed, two fields are changed.
\<close>

theorem structural_aggregation_witness:
  "diffValues (\<lambda>v. False) quiet_world (JArr [JStr ''customer'', JStr ''active''])
      (JArr [JStr ''customer'', JStr ''active'', JStr ''new-tag'']) ''tags'' 3 0 =
     Inr [\<lparr>path = ''tags'', oldValue = JArr [JStr ''customer'', JStr ''active''],
           newValue = JArr [JStr ''customer'', JStr ''active'', JStr ''new-tag'']\<rparr>]
   \<and> diffValues (\<lambda>v. False) quiet_world (JArr [JStr ''customer'', JStr ''active''])
      (JArr [JStr ''client'', JStr ''vip'']) ''tags'' 3 0 =
     Inr [\<lparr>path = ''tags[0]'', oldValue = JStr ''customer'', newValue = JStr ''client''\<rparr>,
          \<lparr>path = ''tags[1]'', oldValue = JStr ''active'', newValue = JStr ''vip''\<rparr>]
   \<and> diffValues (\<lambda>v. False) quiet_world
        (JObj ''Object'' [(''street'', JStr ''Main''), (''city'', JStr ''Anytown'')])
        (JObj ''Object'' [(''street'', JStr ''Main'')])
        ''address'' 3 0 =
     Inr [\<lparr>path = ''address'',
           oldValue = JObj ''Object'' [(''street'', JStr ''Main''), (''city'', JStr ''Anytown'')],
           newValue = JObj ''Object'' [(''street'', JStr ''Main'')]\<rparr>]
   \<and> diffValues (\<lambda>v. False) quiet_world
        (JObj ''Object'' [(''street'', JStr ''Main''), (''city'', JStr ''Anytown'')])
        (JObj ''Object'' [(''city'', JStr ''New City''), (''street'', JStr ''High'')])
        ''address'' 3 0 =
     Inr [\<lparr>path = ''address.street'', oldValue = JStr ''Main'', newValue = JStr ''High''\<rparr>,
          \<lparr>path = ''address.city'', oldValue = JStr ''Anytown'', newValue = JStr ''New City''\<rparr>]"
proof -
  have m: "(0::int) < 3" by simp
  have sp: "\<not> isSpecialTypeOrPrimitive (\<lambda>v. False) (JArr xs)"
    "\<not> isSpecialTypeOrPrimitive (\<lambda>v. False) (JObj c fs)" for xs c fs
    by (simp_all add: isSpecialTypeOrPrimitive_def)
  have cl: "\<not> unclonable quiet_world v" for v by (simp add: quiet_world_def)
  have leaf: "diffValues (\<lambda>v. False) quiet_world (JStr a) (JStr b) q 3 1
                = Inr (if a = b then [] else [\<lparr>path = q, oldValue = JStr a, newValue = JStr b\<rparr>])"
    for a b q
    by (simp add: diffValues_special isSpecialTypeOrPrimitive_def)
  have sn: "show_nat 0 = ''0''" "show_nat (Suc 0) = ''1''" by (simp_all add: show_nat.simps)
  let ?tags = "[JStr ''customer'', JStr ''active'']"
  let ?street = "[(''street'', JStr ''Main''), (''city'', JStr ''Anytown'')]"
  let ?moved = "[(''city'', JStr ''New City''), (''street'', JStr ''High'')]"
  let ?cs = "\<lambda>i::nat. if i = 0
       then [\<lparr>path = ''tags[0]'', oldValue = JStr ''customer'', newValue = JStr ''client''\<rparr>]
       else [\<lparr>path = ''tags[1]'', oldValue = JStr ''active'', newValue = JStr ''vip''\<rparr>]"
  let ?ks = "\<lambda>k. if k = ''street''
       then [\<lparr>path = ''address.street'', oldValue = JStr ''Main'', newValue = JStr ''High''\<rparr>]
       else [\<lparr>path = ''address.city'', oldValue = JStr ''Anytown'', newValue = JStr ''New City''\<rparr>]"
  have els: "\<forall>i<length ?tags.
          diffValues (\<lambda>v. False) quiet_world (?tags ! i) ([JStr ''client'', JStr ''vip''] ! i)
            (''tags'' @ ''['' @ show_nat i @ '']'') 3 (0 + 1) = Inr (?cs i)"
    by (auto simp: leaf sn less_Suc_eq)
  have flds: "\<forall>key \<in> set (map fst ?street).
          diffValues (\<lambda>v. False) quiet_world (get_prop (JObj ''Object'' ?street) key)
            (get_prop (JObj ''Object'' ?moved) key) (''address'' @ ''.'' @ key) 3 (0 + 1)
          = Inr (?ks key)"
    by (simp add: leaf get_prop_def)
  from structural_aggregation [OF m, of "\<lambda>v. False" ?tags
      "[JStr ''customer'', JStr ''active'', JStr ''new-tag'']" quiet_world "''tags''" ?cs
      "''Object''" ?street "''Object''" "[(''street'', JStr ''Main'')]" ?ks] sp cl
  have grown: "diffValues (\<lambda>v. False) quiet_world (JArr ?tags)
      (JArr [JStr ''customer'', JStr ''active'', JStr ''new-tag'']) ''tags'' 3 0 =
     Inr [\<lparr>path = ''tags'', oldValue = JArr ?tags,
           newValue = JArr [JStr ''customer'', JStr ''active'', JStr ''new-tag'']\<rparr>]"
    by simp
  from structural_aggregation [OF m, of "\<lambda>v. False" "[]" "[]" quiet_world "''address''" ?cs
      "''Object''" ?street "''Object''" "[(''street'', JStr ''Main'')]" ?ks] sp cl
  have removed: "diffValues (\<lambda>v. False) quiet_world
        (JObj ''Object'' ?street) (JObj ''Object'' [(''street'', JStr ''Main'')]) ''address'' 3 0 =
     Inr [\<lparr>path = ''address'', oldValue = JObj ''Object'' ?street,
           newValue = JObj ''Object'' [(''street'', JStr ''Main'')]\<rparr>]"
    by simp
  from structural_aggregation [OF m, of "\<lambda>v. False" ?tags
      "[JStr ''client'', JStr ''vip'']" quiet_world "''tags''" ?cs
      "''Object''" ?street "''Object''" ?moved ?ks] sp cl els
  have same_length: "diffValues (\<lambda>v. False) quiet_world (JArr ?tags)
      (JArr [JStr ''client'', JStr ''vip'']) ''tags'' 3 0 =
     Inr [\<lparr>path = ''tags[0]'', oldValue = JStr ''customer'', newValue = JStr ''client''\<rparr>,
          \<lparr>path = ''tags[1]'', oldValue = JStr ''active'', newValue = JStr ''vip''\<rparr>]"
    by (simp add: upt_rec)
  from structural_aggregation [OF m, of "\<lambda>v. False" "[]" "[]" quiet_world "''address''" ?cs
      "''Object''" ?street "''Object''" ?moved ?ks] sp cl flds
  have changed: "diffValues (\<lambda>v. False) quiet_world
        (JObj ''Object'' ?street) (JObj ''Object'' ?moved) ''address'' 3 0 =
     Inr [\<lparr>path = ''address.street'', oldValue = JStr ''Main'', newValue = JStr ''High''\<rparr>,
          \<lparr>path = ''address.city'', oldValue = JStr ''Anytown'', newValue = JStr ''New City''\<rparr>]"
    by (simp add: insert_commute)
  from grown same_length removed changed show ?thesis by blast
qed

text \<open>
  C3 as stated fails for records that the predicate of the tracker accepts as atomic: two
  instances of \<^verbatim>\<open>CustomId\<close> with the same key and different values are not compared key
  by key, at \<open>customId.id\<close>, but give one change at \<open>customId\<close> holding the two instances.
\<close>

theorem atomic_records_counterexample:
  "set (map fst [(''id'', JStr ''abc-123'')]) = set (map fst [(''id'', JStr ''xyz-789'')])
   \<and> diffValues isCustomValueType quiet_world
        (get_prop (JObj ''CustomId'' [(''id'', JStr ''abc-123'')]) ''id'')
        (get_prop (JObj ''CustomId'' [(''id'', JStr ''xyz-789'')]) ''id'')
        (''customId'' @ ''.'' @ ''id'') 3 (0 + 1)
      = Inr [\<lparr>path = ''customId.id'', oldValue = JStr ''abc-123'', newValue = JStr ''xyz-789''\<rparr>]
   \<and> diffValues isCustomValueType quiet_world
        (JObj ''CustomId'' [(''id'', JStr ''abc-123'')])
        (JObj ''CustomId'' [(''id'', JStr ''xyz-789'')]) ''customId'' 3 0
      = Inr [\<lparr>path = ''customId'', oldValue = JObj ''CustomId'' [(''id'', JStr ''abc-123'')],
              newValue = JObj ''CustomId'' [(''id'', JStr ''xyz-789'')]\<rparr>]"
  by (simp add: diffValues.simps isSpecialTypeOrPrimitive_def get_prop_def)

section \<open>Atomic values\<close>

lemma update_loop_treatAsValue: "treatAsValue (update_loop w es T) = treatAsValue T"
  by (induction es arbitrary: T) (auto split: option.splits sum.splits)

lemma peek_loop_treatAsValue:
  "treatAsValue (fst (peek_loop w es T acc)) = treatAsValue T"
  by (induction es arbitrary: T acc) (auto split: option.splits sum.splits)

text \<open>
  C4: the tracker classifies with the predicate its constructor was given, or with the one
  that is always false when none was given, and no operation changes that predicate. A
  value is atomic iff it is null, not an object, a date, or accepted by that predicate.
  Below the depth ceiling, when either side is atomic, the differ returns one change at
  the current path holding the two sides when they are not deeply equal, and nothing when
  they are.
\<close>

theorem atomic_values:
  "(isSpecialTypeOrPrimitive (treatAsValue (new_tracker opt)) v \<longleftrightarrow>
      v = JNull \<or> typeof v \<noteq> TObject \<or> instanceofDate v
      \<or> (case opt of None \<Rightarrow> False | Some accepted \<Rightarrow> accepted v))
   \<and> treatAsValue (new_tracker (Some accepted)) = accepted
   \<and> treatAsValue (fst (startTrack w T obj pn md)) = treatAsValue T
   \<and> treatAsValue (fst (peekChanges w T)) = treatAsValue T
   \<and> treatAsValue (updateSnapshots w T) = treatAsValue T
   \<and> treatAsValue (stopTrack w T obj pn) = treatAsValue T
   \<and> treatAsValue (stopAllTracks T) = treatAsValue T
   \<and> (isSpecialTypeOrPrimitive tav v \<longleftrightarrow>
      v = JNull \<or> typeof v \<noteq> TObject \<or> instanceofDate v \<or> tav v)
   \<and> \<not> treatAsValue (new_tracker None) v
   \<and> (d < m \<longrightarrow> isSpecialTypeOrPrimitive tav ov \<or> isSpecialTypeOrPrimitive tav nv \<longrightarrow>
        diffValues tav w ov nv p m d =
          (if isEqual ov nv then Inr []
           else Inr [\<lparr>path = p, oldValue = ov, newValue = nv\<rparr>]))"
proof -
  have "treatAsValue (fst (startTrack w T obj pn md)) = treatAsValue T"
    by (simp add: startTrack_def Let_def split: sum.splits)
  moreover have "treatAsValue (stopTrack w T obj pn) = treatAsValue T"
    by (simp add: stopTrack_def Let_def split: option.splits)
  moreover have "isSpecialTypeOrPrimitive (treatAsValue (new_tracker opt)) v \<longleftrightarrow>
      v = JNull \<or> typeof v \<noteq> TObject \<or> instanceofDate v
      \<or> (case opt of None \<Rightarrow> False | Some accepted \<Rightarrow> accepted v)"
    by (cases opt) (simp_all add: isSpecialTypeOrPrimitive_def new_tracker_def)
  ultimately show ?thesis
    by (simp add: isSpecialTypeOrPrimitive_def new_tracker_def stopAllTracks_def
        peekChanges_def updateSnapshots_def peek_loop_treatAsValue update_loop_treatAsValue
        diffValues.simps [of tav w ov nv p m d])
qed

text \<open>
  A tracker made with the predicate of the test suite: an instance of \<^verbatim>\<open>CustomId\<close> is
  atomic for it, also after a registration, and the differ run with its predicate on two
  instances reports them whole.
\<close>

theorem atomic_values_witness:
  "(0::int) < 3
   \<and> isSpecialTypeOrPrimitive (treatAsValue (new_tracker (Some isCustomValueType)))
        (JObj ''CustomId'' [(''id'', JStr ''id-1'')])
   \<and> \<not> isSpecialTypeOrPrimitive (treatAsValue (new_tracker None))
        (JObj ''CustomId'' [(''id'', JStr ''id-1'')])
   \<and> treatAsValue (fst (startTrack example_world (new_tracker (Some isCustomValueType))
        1 ''name'' None)) = isCustomValueType
   \<and> diffValues (treatAsValue (new_tracker (Some isCustomValueType))) quiet_world
        (JObj ''CustomId'' [(''id'', JStr ''id-1'')])
        (JObj ''CustomId'' [(''id'', JStr ''id-2'')]) ''customId'' 3 0 =
      Inr [\<lparr>path = ''customId'', oldValue = JObj ''CustomId'' [(''id'', JStr ''id-1'')],
            newValue = JObj ''CustomId'' [(''id'', JStr ''id-2'')]\<rparr>]"
  using atomic_values [where opt = "Some isCustomValueType" and accepted = isCustomValueType
      and tav = "treatAsValue (new_tracker (Some isCustomValueType))" and d = 0 and m = 3
      and v = "JObj ''CustomId'' [(''id'', JStr ''id-1'')]"
      and ov = "JObj ''CustomId'' [(''id'', JStr ''id-1'')]"
      and nv = "JObj ''CustomId'' [(''id'', JStr ''id-2'')]"
      and w = quiet_world and p = "''customId''"
      and T = "new_tracker (Some isCustomValueType)"]
    atomic_values [where opt = None and v = "JObj ''CustomId'' [(''id'', JStr ''id-1'')]"]
  by simp

section \<open>An array against an object\<close>

text \<open>
  C5: the differ is given an array on one side and an object on the other, neither
  atomic, below the depth ceiling. Both have type object, so the branch for objects
  takes them: the empty array and the empty object are not deeply equal and no change
  comes out, and a one-element array against an object with the key 0 gives a change one
  level down, at \<open>data.0\<close>.
\<close>

theorem array_against_object:
  "\<not> isEqual (JArr []) (JObj ''Object'' [])
   \<and> \<not> isSpecialTypeOrPrimitive (\<lambda>v. False) (JArr [])
   \<and> \<not> isSpecialTypeOrPrimitive (\<lambda>v. False) (JObj ''Object'' [])
   \<and> diffValues (\<lambda>v. False) quiet_world (JArr []) (JObj ''Object'' []) ''data'' 3 0 = Inr []
   \<and> diffValues (\<lambda>v. False) quiet_world (JArr [JNum 1]) (JObj ''Object'' [(''0'', JNum 2)])
        ''data'' 3 0 =
      Inr [\<lparr>path = ''data.0'', oldValue = JNum 1, newValue = JNum 2\<rparr>]"
  by (simp add: diffValues.simps isSpecialTypeOrPrimitive_def keys_def hasOwnProperty_def
        has_own_def get_prop_def show_nat.simps)

section \<open>Exceptions leaving the public operations\<close>

text \<open>
  C1: no public operation lets an exception reach the caller; \<open>startTrack\<close> on a
  property whose read throws returns normally and creates no entry. In the code the
  read of \<open>startTrack\<close> is outside the \<^verbatim>\<open>try\<close>: on an owner whose getter throws the
  call ends with that exception. \<open>peekChanges\<close> and \<open>updateSnapshots\<close> guard the same
  read: on an entry for that owner they return normally and leave the entry alone.
\<close>

theorem startTrack_read_throws:
  "startTrack example_world (new_tracker None) 0 ''prop'' None
     = (new_tracker None, Inl PropertyReadFailure)
   \<and> peekChanges example_world throwing_tracker = (throwing_tracker, Inr [])
   \<and> updateSnapshots example_world throwing_tracker = throwing_tracker"
  by (simp add: startTrack_def peekChanges_def updateSnapshots_def throwing_tracker_def
      example_world_def example_owner_def deref_def)

section \<open>De-registration\<close>

text \<open>
  C9: \<open>stopTrack\<close> removes the entry under the composite key, and nothing else, iff
  there is one and its weak reference resolves to the owner passed in (the reference is
  to that owner and the owner is not collected); otherwise the tracker is unchanged.
\<close>

theorem stopTrack_removes_iff:
  "stopTrack w T obj prop =
     (if (case map_of (trackedProperties T) (propertyKey_of (objects w obj) prop) of
            None \<Rightarrow> False
          | Some info \<Rightarrow> parentObjRef info = obj \<and> \<not> collected w obj)
      then T\<lparr>trackedProperties :=
               filter (\<lambda>e. fst e \<noteq> propertyKey_of (objects w obj) prop) (trackedProperties T)\<rparr>
      else T)
   \<and> (stopTrack w T obj prop \<noteq> T \<longrightarrow>
        propertyKey_of (objects w obj) prop \<notin> fst ` set (trackedProperties (stopTrack w T obj prop)))"
proof -
  have "AList.delete k xs = filter (\<lambda>e. fst e \<noteq> k) xs" for k and xs :: "(string \<times> trackedPropertyInfo) list"
    by (induction xs) (auto simp: AList.delete_eq)
  then show ?thesis
    by (auto simp: stopTrack_def deref_def Let_def split: option.splits)
qed

theorem stopTrack_removes_iff_witness:
  "stopTrack example_world
     (fst (startTrack example_world (new_tracker None) 1 ''name'' None)) 1 ''name''
     \<noteq> fst (startTrack example_world (new_tracker None) 1 ''name'' None)
   \<and> trackedProperties (stopTrack example_world
        (fst (startTrack example_world (new_tracker None) 1 ''name'' None)) 1 ''name'') = []
   \<and> stopTrack example_world
        (fst (startTrack example_world (new_tracker None) 1 ''name'' None)) 2 ''name''
      = fst (startTrack example_world (new_tracker None) 1 ''name'' None)"
  using stopTrack_removes_iff [of example_world
      "fst (startTrack example_world (new_tracker None) 1 ''name'' None)" 1 "''name''"]
    stopTrack_removes_iff [of example_world
      "fst (startTrack example_world (new_tracker None) 1 ''name'' None)" 2 "''name''"]
  by (simp add: startTrack_def example_world_def example_owner_def new_tracker_def
      propertyKey_of_def try_cloneDeep_def defaultMaxDepth_def)

section \<open>The registry\<close>

lemma delete_conv_filter: "AList.delete k xs = filter (\<lambda>e. fst e \<noteq> k) xs"
  by (induction xs) (auto simp: AList.delete_eq)

lemma update_absent: "k \<notin> fst ` set xs \<Longrightarrow> AList.update k v xs = xs @ [(k, v)]"
  by (induction xs) auto

lemma startTrack_registry:
  assumes "getter (objects w obj) prop = Inr v"
  shows "trackedProperties (fst (startTrack w T obj prop md)) =
           (if unclonable w v
            then AList.delete (propertyKey_of (objects w obj) prop) (trackedProperties T)
            else AList.delete (propertyKey_of (objects w obj) prop) (trackedProperties T)
                 @ [(propertyKey_of (objects w obj) prop,
                     \<lparr>parentObjRef = obj, property = prop,
                      originalValueSnapshot = cloneDeep v,
                      maxDepth = (case md of None \<Rightarrow> defaultMaxDepth | Some m \<Rightarrow> m)\<rparr>)])"
proof -
  let ?k = "propertyKey_of (objects w obj) prop"
  have absent: "?k \<notin> fst ` set (trackedProperties T) \<Longrightarrow>
                 AList.delete ?k (trackedProperties T) = trackedProperties T"
    by (force simp: delete_conv_filter filter_id_conv)
  have gone: "?k \<notin> fst ` set (AList.delete ?k (trackedProperties T))"
    by (simp add: delete_conv_filter image_iff)
  have tp1: "(if A then AList.delete ?k (trackedProperties T)
              else if ?k \<in> fst ` set (trackedProperties T)
              then AList.delete ?k (trackedProperties T)
              else trackedProperties T) = AList.delete ?k (trackedProperties T)" for A
    using absent by simp
  show ?thesis
    unfolding startTrack_def Let_def assms sum.case tp1
    by (simp add: try_cloneDeep_def update_absent [OF gone])
qed

lemma startTrack_distinct:
  assumes "distinct (map fst (trackedProperties T))"
  shows "distinct (map fst (trackedProperties (fst (startTrack w T obj prop md))))"
proof (cases "getter (objects w obj) prop")
  case (Inl e)
  with assms show ?thesis by (simp add: startTrack_def Let_def)
next
  case (Inr v)
  have "propertyKey_of (objects w obj) prop
          \<notin> fst ` set (AList.delete (propertyKey_of (objects w obj) prop) (trackedProperties T))"
    by (simp add: delete_conv_filter image_iff)
  with assms show ?thesis
    by (simp add: startTrack_registry [OF Inr] distinct_delete)
qed

lemma peek_loop_distinct:
  "distinct (map fst (trackedProperties T)) \<Longrightarrow>
   distinct (map fst (trackedProperties (fst (peek_loop w es T acc))))"
  by (induction es arbitrary: T acc)
     (auto simp: distinct_delete split: option.splits sum.splits)

lemma update_loop_distinct:
  "distinct (map fst (trackedProperties T)) \<Longrightarrow>
   distinct (map fst (trackedProperties (update_loop w es T)))"
  by (induction es arbitrary: T)
     (auto simp: distinct_delete distinct_update split: option.splits sum.splits)

lemma stopTrack_distinct:
  "distinct (map fst (trackedProperties T)) \<Longrightarrow>
   distinct (map fst (trackedProperties (stopTrack w T obj prop)))"
  by (simp add: stopTrack_def Let_def distinct_delete split: option.splits)

lemma reachable_distinct: "reachable T \<Longrightarrow> distinct (map fst (trackedProperties T))"
proof (induction rule: reachable.induct)
  case (reach_new opt)
  show ?case by (simp add: new_tracker_def)
next
  case (reach_startTrack T w obj pn md)
  from reach_startTrack.IH show ?case by (rule startTrack_distinct)
next
  case (reach_peekChanges T w)
  from reach_peekChanges.IH show ?case unfolding peekChanges_def by (rule peek_loop_distinct)
next
  case (reach_updateSnapshots T w)
  from reach_updateSnapshots.IH show ?case
    unfolding updateSnapshots_def by (rule update_loop_distinct)
next
  case (reach_stopTrack T w obj pn)
  from reach_stopTrack.IH show ?case by (rule stopTrack_distinct)
next
  case (reach_stopAllTracks T)
  show ?case by (simp add: stopAllTracks_def)
qed

lemma distinct_filter_key:
  "distinct (map fst xs) \<Longrightarrow> length (filter (\<lambda>e. fst e = k) xs) \<le> 1"
  by (induction xs) (auto simp: filter_empty_conv image_iff)

text \<open>
  C8, as the code has it: in every reachable tracker the keys of the registry are
  distinct, so that each composite key has at most one entry; a \<open>startTrack\<close> whose
  property read and deep copy succeed leaves under its key exactly the fresh entry (the
  owner passed in, a deep copy of the value read, the depth given), whatever was there
  before; when the deep copy throws, the call leaves no entry under the key.
\<close>

theorem registry_one_entry_per_key:
  "(reachable T \<longrightarrow>
      distinct (map fst (trackedProperties T))
      \<and> length (filter (\<lambda>e. fst e = propertyKey_of ob pn) (trackedProperties T)) \<le> 1)
   \<and> (getter (objects w obj) prop = Inr v \<longrightarrow> \<not> unclonable w v \<longrightarrow>
        filter (\<lambda>e. fst e = propertyKey_of (objects w obj) prop)
          (trackedProperties (fst (startTrack w T obj prop md)))
        = [(propertyKey_of (objects w obj) prop,
            \<lparr>parentObjRef = obj, property = prop, originalValueSnapshot = cloneDeep v,
             maxDepth = (case md of None \<Rightarrow> defaultMaxDepth | Some m \<Rightarrow> m)\<rparr>)])
   \<and> (getter (objects w obj) prop = Inr v \<longrightarrow> unclonable w v \<longrightarrow>
        filter (\<lambda>e. fst e = propertyKey_of (objects w obj) prop)
          (trackedProperties (fst (startTrack w T obj prop md))) = [])"
proof (intro conjI impI)
  assume "reachable T"
  then show "distinct (map fst (trackedProperties T))" by (rule reachable_distinct)
  then show "length (filter (\<lambda>e. fst e = propertyKey_of ob pn) (trackedProperties T)) \<le> 1"
    by (rule distinct_filter_key)
next
  assume "getter (objects w obj) prop = Inr v" "\<not> unclonable w v"
  then show "filter (\<lambda>e. fst e = propertyKey_of (objects w obj) prop)
          (trackedProperties (fst (startTrack w T obj prop md)))
        = [(propertyKey_of (objects w obj) prop,
            \<lparr>parentObjRef = obj, property = prop, originalValueSnapshot = cloneDeep v,
             maxDepth = (case md of None \<Rightarrow> defaultMaxDepth | Some m \<Rightarrow> m)\<rparr>)]"
    by (simp add: startTrack_registry delete_conv_filter)
next
  assume "getter (objects w obj) prop = Inr v" "unclonable w v"
  then show "filter (\<lambda>e. fst e = propertyKey_of (objects w obj) prop)
          (trackedProperties (fst (startTrack w T obj prop md))) = []"
    by (simp add: startTrack_registry delete_conv_filter)
qed

text \<open>
  One owner is registered under \<open>Object.name\<close>, then another instance of the same
  class: the registry holds the one entry of the second owner. When the second owner is
  one whose value cannot be copied, the registry is left empty.
\<close>

theorem registry_one_entry_per_key_witness:
  "reachable (fst (startTrack example_world (new_tracker None) 1 ''name'' None))
   \<and> trackedProperties (fst (startTrack example_world (new_tracker None) 1 ''name'' None))
      = [(''Object.name'', \<lparr>parentObjRef = 1, property = ''name'',
            originalValueSnapshot = JStr ''Object One'', maxDepth = 3\<rparr>)]
   \<and> filter (\<lambda>e. fst e = ''Object.name'')
        (trackedProperties (fst (startTrack example_world
           (fst (startTrack example_world (new_tracker None) 1 ''name'' None)) 2 ''name'' (Some 5))))
      = [(''Object.name'', \<lparr>parentObjRef = 2, property = ''name'',
            originalValueSnapshot = JStr ''Object One'', maxDepth = 5\<rparr>)]
   \<and> filter (\<lambda>e. fst e = ''Object.name'')
        (trackedProperties (fst (startTrack example_world
           (fst (startTrack example_world (new_tracker None) 1 ''name'' None)) 3 ''name'' None)))
      = []"
proof -
  let ?T = "fst (startTrack example_world (new_tracker None) 1 ''name'' None)"
  have r: "reachable ?T" by (intro reachable.intros)
  have g: "getter (objects example_world 2) ''name'' = Inr (JStr ''Object One'')"
    "getter (objects example_world 3) ''name'' = Inr (JObj ''Revoked'' [])"
    by (simp_all add: example_world_def example_owner_def)
  have u: "\<not> unclonable example_world (JStr ''Object One'')"
    "unclonable example_world (JObj ''Revoked'' [])"
    by (simp_all add: example_world_def)
  have k: "propertyKey_of (objects example_world 2) ''name'' = ''Object.name''"
    "propertyKey_of (objects example_world 3) ''name'' = ''Object.name''"
    by (simp_all add: propertyKey_of_def example_world_def example_owner_def)
  have t: "trackedProperties ?T
      = [(''Object.name'', \<lparr>parentObjRef = 1, property = ''name'',
            originalValueSnapshot = JStr ''Object One'', maxDepth = 3\<rparr>)]"
    by (simp add: startTrack_def example_world_def example_owner_def new_tracker_def
        propertyKey_of_def try_cloneDeep_def defaultMaxDepth_def)
  from registry_one_entry_per_key [of ?T _ _ example_world 2 "''name''" "JStr ''Object One''" "Some 5"]
    registry_one_entry_per_key [of ?T _ _ example_world 3 "''name''" "JObj ''Revoked'' []" None]
    r g u t show ?thesis by (simp add: k)
qed

text \<open>
  C8 as stated fails when the deep copy of the new registration throws: the prior entry
  is deleted before the copy is tried, and no fresh entry takes its place.
\<close>

theorem startTrack_copy_fails_counterexample:
  "(''Object.name'', \<lparr>parentObjRef = 1, property = ''name'',
        originalValueSnapshot = JStr ''Object One'', maxDepth = 3\<rparr>)
     \<in> set (trackedProperties (fst (startTrack example_world (new_tracker None) 1 ''name'' None)))
   \<and> startTrack example_world
        (fst (startTrack example_world (new_tracker None) 1 ''name'' None)) 3 ''name'' None
      = (new_tracker None, Inr (JObj ''Revoked'' []))"
  by (simp add: startTrack_def example_world_def example_owner_def
      new_tracker_def propertyKey_of_def try_cloneDeep_def defaultMaxDepth_def deref_def)

section \<open>Inspection\<close>

lemma peek_loop_entries_subset:
  "set (trackedProperties (fst (peek_loop w es T acc))) \<subseteq> set (trackedProperties T)"
proof (induction es arbitrary: T acc)
  case Nil
  show ?case by simp
next
  case (Cons x es)
  obtain k e where x: "x = (k, e)" by (cases x)
  have del: "set (trackedProperties (fst (peek_loop w es
               (T\<lparr>trackedProperties := AList.delete k (trackedProperties T)\<rparr>) acc)))
             \<subseteq> set (trackedProperties T)" for acc
    using Cons.IH [of "T\<lparr>trackedProperties := AList.delete k (trackedProperties T)\<rparr>" acc]
    by (auto simp: delete_conv_filter)
  show ?case
    unfolding x using del Cons.IH [of T]
    by (simp split: option.splits sum.splits)
qed

lemma peek_loop_result_cong:
  "treatAsValue T = treatAsValue T' \<Longrightarrow>
   snd (peek_loop w es T acc) = snd (peek_loop w es T' acc)"
proof (induction es arbitrary: T T' acc)
  case Nil
  show ?case by simp
next
  case (Cons x es)
  obtain k e where x: "x = (k, e)" by (cases x)
  have a: "snd (peek_loop w es (T\<lparr>trackedProperties := AList.delete k (trackedProperties T)\<rparr>) acc)
         = snd (peek_loop w es (T'\<lparr>trackedProperties := AList.delete k (trackedProperties T')\<rparr>) acc)"
    for acc by (rule Cons.IH) (simp add: Cons.prems)
  have b: "snd (peek_loop w es T acc) = snd (peek_loop w es T' acc)" for acc
    by (rule Cons.IH) (rule Cons.prems)
  show ?case
    unfolding x using a b Cons.prems
    by (simp split: option.splits sum.splits)
qed

lemma peek_loop_skips_collected:
  "snd (peek_loop w (filter (\<lambda>x. \<not> collected w (parentObjRef (snd x))) es) T acc)
     = snd (peek_loop w es T acc)"
proof (induction es arbitrary: T acc)
  case Nil
  show ?case by simp
next
  case (Cons x es)
  obtain k e where x: "x = (k, e)" by (cases x)
  show ?case
  proof (cases "collected w (parentObjRef e)")
    case True
    have "snd (peek_loop w es (T\<lparr>trackedProperties := AList.delete k (trackedProperties T)\<rparr>) acc)
            = snd (peek_loop w es T acc)"
      by (rule peek_loop_result_cong) simp
    with True show ?thesis
      by (simp add: x deref_def Cons.IH)
  next
    case False
    then show ?thesis
      by (simp add: x deref_def Cons.IH split: sum.splits)
  qed
qed

lemma delete_middle:
  assumes "k \<notin> fst ` set pre" "k \<notin> fst ` set rest"
  shows "AList.delete k (pre @ (k, e) # rest) = pre @ rest"
proof -
  have "filter (\<lambda>x. fst x \<noteq> k) xs = xs" if "k \<notin> fst ` set xs" for xs :: "('a \<times> 'b) list"
    using that by (induction xs) auto
  with assms show ?thesis by (simp add: delete_conv_filter)
qed

lemma update_middle:
  assumes "k \<notin> fst ` set pre"
  shows "AList.update k v (pre @ (k, e) # rest) = pre @ (k, v) # rest"
  using assms by (induction pre) auto

lemma peek_loop_registry:
  assumes "distinct (map fst (pre @ es))" "trackedProperties T = pre @ es"
  shows "\<exists>es'. trackedProperties (fst (peek_loop w es T acc)) = pre @ es'
           \<and> filter (\<lambda>x. \<not> collected w (parentObjRef (snd x))) es'
             = filter (\<lambda>x. \<not> collected w (parentObjRef (snd x))) es"
  using assms
proof (induction es arbitrary: T pre acc)
  case Nil
  then show ?case by simp
next
  case (Cons x es)
  obtain k e where x: "x = (k, e)" by (cases x)
  from Cons.prems(1) have kp: "k \<notin> fst ` set pre" and kr: "k \<notin> fst ` set es"
    and d1: "distinct (map fst (pre @ es))" and d2: "distinct (map fst ((pre @ [(k, e)]) @ es))"
    by (auto simp: x)
  have keep: "\<exists>es'. trackedProperties (fst (peek_loop w es T acc')) = pre @ es'
           \<and> filter (\<lambda>x. \<not> collected w (parentObjRef (snd x))) es'
             = (k, e) # filter (\<lambda>x. \<not> collected w (parentObjRef (snd x))) es"
    if "\<not> collected w (parentObjRef e)" for acc'
  proof -
    from Cons.IH [OF d2, of T acc'] Cons.prems(2)
    obtain es' where "trackedProperties (fst (peek_loop w es T acc')) = (pre @ [(k, e)]) @ es'"
      and "filter (\<lambda>x. \<not> collected w (parentObjRef (snd x))) es'
             = filter (\<lambda>x. \<not> collected w (parentObjRef (snd x))) es"
      by (auto simp: x)
    with that show ?thesis by (intro exI [of _ "(k, e) # es'"]) simp
  qed
  show ?case
  proof (cases "collected w (parentObjRef e)")
    case True
    have "trackedProperties (T\<lparr>trackedProperties := AList.delete k (trackedProperties T)\<rparr>)
            = pre @ es"
      by (simp add: Cons.prems(2) x delete_middle [OF kp kr])
    from Cons.IH [OF d1 this, of acc] True show ?thesis
      by (simp add: x deref_def)
  next
    case False
    show ?thesis
    proof (cases "getter (objects w (parentObjRef e)) (property e)")
      case (Inl err)
      with False keep [OF False, of acc] show ?thesis by (simp add: x deref_def)
    next
      case (Inr v)
      show ?thesis
      proof (cases "isEqual v (originalValueSnapshot e)")
        case True
        with False Inr keep [OF False, of acc] show ?thesis by (simp add: x deref_def)
      next
        case ne: False
        show ?thesis
        proof (cases "diffValues (treatAsValue T) w (originalValueSnapshot e) v (property e)
                        (maxDepth e) 0")
          case (Inl err)
          with False Inr ne Cons.prems(2) show ?thesis
            by (simp add: x deref_def)
        next
          case (Inr cs)
          with False \<open>getter (objects w (parentObjRef e)) (property e) = Inr v\<close> ne
            keep [OF False, of "acc @ cs"]
          show ?thesis by (simp add: x deref_def)
        qed
      qed
    qed
  qed
qed

text \<open>
  C6: \<open>peekChanges\<close> leaves in the registry only entries that were there, as they were
  (key, owner, property, baseline and depth); and a second call in the same world, on the
  tracker the first call left, gives the same outcome as the first.
\<close>

theorem peekChanges_read_only_idempotent:
  "set (trackedProperties (fst (peekChanges w T))) \<subseteq> set (trackedProperties T)
   \<and> treatAsValue (fst (peekChanges w T)) = treatAsValue T
   \<and> (distinct (map fst (trackedProperties T)) \<longrightarrow>
        snd (peekChanges w (fst (peekChanges w T))) = snd (peekChanges w T))"
proof (intro conjI impI)
  show "set (trackedProperties (fst (peekChanges w T))) \<subseteq> set (trackedProperties T)"
    unfolding peekChanges_def by (rule peek_loop_entries_subset)
  show tav: "treatAsValue (fst (peekChanges w T)) = treatAsValue T"
    unfolding peekChanges_def by (rule peek_loop_treatAsValue)
  assume "distinct (map fst (trackedProperties T))"
  then have "distinct (map fst ([] @ trackedProperties T))" by simp
  from peek_loop_registry [OF this, of T w "[]"]
  have same: "filter (\<lambda>x. \<not> collected w (parentObjRef (snd x)))
                (trackedProperties (fst (peekChanges w T)))
              = filter (\<lambda>x. \<not> collected w (parentObjRef (snd x))) (trackedProperties T)"
    by (auto simp: peekChanges_def)
  let ?T' = "fst (peekChanges w T)"
  let ?live = "\<lambda>x. \<not> collected w (parentObjRef (snd x))"
  have "snd (peekChanges w ?T') = snd (peek_loop w (filter ?live (trackedProperties ?T')) ?T' [])"
    unfolding peekChanges_def [of w ?T'] by (rule peek_loop_skips_collected [symmetric])
  also have "\<dots> = snd (peek_loop w (filter ?live (trackedProperties T)) ?T' [])"
    by (simp only: same)
  also have "\<dots> = snd (peek_loop w (filter ?live (trackedProperties T)) T [])"
    by (rule peek_loop_result_cong) (rule tav)
  also have "\<dots> = snd (peekChanges w T)"
    unfolding peekChanges_def [of w T] by (rule peek_loop_skips_collected)
  finally show "snd (peekChanges w ?T') = snd (peekChanges w T)" .
qed

theorem peekChanges_read_only_idempotent_witness:
  "distinct (map fst (trackedProperties stale_tracker))
   \<and> snd (peekChanges example_world stale_tracker)
      = Inr [\<lparr>path = ''name'', oldValue = JStr ''Old Name'', newValue = JStr ''Object One''\<rparr>]
   \<and> snd (peekChanges example_world (fst (peekChanges example_world stale_tracker)))
      = Inr [\<lparr>path = ''name'', oldValue = JStr ''Old Name'', newValue = JStr ''Object One''\<rparr>]"
proof -
  have d: "distinct (map fst (trackedProperties stale_tracker))"
    by (simp add: stale_tracker_def)
  have p: "snd (peekChanges example_world stale_tracker)
      = Inr [\<lparr>path = ''name'', oldValue = JStr ''Old Name'', newValue = JStr ''Object One''\<rparr>]"
    by (simp add: peekChanges_def stale_tracker_def example_world_def example_owner_def
        deref_def diffValues.simps isSpecialTypeOrPrimitive_def)
  from peekChanges_read_only_idempotent [of example_world stale_tracker] d p
  show ?thesis by simp
qed

section \<open>Commitment\<close>

lemma isEqual_refl: "wf_val v \<Longrightarrow> isEqual v v"
proof (induction v)
  case (JArr xs)
  then show ?case by (simp add: list_all2_same list_all_iff)
next
  case (JObj c fs)
  have "case map_of fs k of None \<Rightarrow> False | Some u \<Rightarrow> isEqual v u" if "(k, v) \<in> set fs" for k v
  proof -
    from JObj.prems that have "map_of fs k = Some v" by simp
    moreover from JObj.prems that have "wf_val v" by (auto simp: list_all_iff)
    with that have "isEqual v v" by (intro JObj.IH [of "(k, v)"]) simp_all
    ultimately show ?thesis by simp
  qed
  then show ?case by (auto simp: list_all_iff)
qed simp_all

lemma peek_loop_settled:
  assumes "\<forall>x \<in> set es.
             settled w (snd x)"
  shows "snd (peek_loop w es T acc) = Inr acc"
  using assms
proof (induction es arbitrary: T acc)
  case Nil
  show ?case by simp
next
  case (Cons x es)
  obtain k e where x: "x = (k, e)" by (cases x)
  from Cons.prems have rest: "snd (peek_loop w es T' acc) = Inr acc" for T'
    by (intro Cons.IH) simp
  from Cons.prems have "settled w e" by (simp add: x)
  then show ?case
    by (auto simp: settled_def x deref_def rest split: sum.splits)
qed

lemma update_loop_registry:
  assumes "distinct (map fst (pre @ es))" "trackedProperties T = pre @ es"
    and "\<forall>x \<in> set es. \<forall>v. getter (objects w (parentObjRef (snd x))) (property (snd x)) = Inr v
           \<longrightarrow> wf_val v"
  shows "\<exists>es'. trackedProperties (update_loop w es T) = pre @ es'
           \<and> (\<forall>x \<in> set es'. settled w (snd x))"
  using assms
proof (induction es arbitrary: T pre)
  case Nil
  then show ?case by simp
next
  case (Cons x es)
  obtain k e where x: "x = (k, e)" by (cases x)
  let ?ok = "\<lambda>x. settled w (snd x)"
  from Cons.prems(1) have kp: "k \<notin> fst ` set pre" and kr: "k \<notin> fst ` set es"
    and d1: "distinct (map fst (pre @ es))"
    by (auto simp: x)
  from Cons.prems(3) have wf_rest:
    "\<forall>x \<in> set es. \<forall>v. getter (objects w (parentObjRef (snd x))) (property (snd x)) = Inr v
           \<longrightarrow> wf_val v"
    by simp
  have dropped: "\<exists>es'. trackedProperties (update_loop w es
                    (T\<lparr>trackedProperties := AList.delete k (trackedProperties T)\<rparr>)) = pre @ es'
                  \<and> (\<forall>x \<in> set es'. ?ok x)"
  proof -
    have "trackedProperties (T\<lparr>trackedProperties := AList.delete k (trackedProperties T)\<rparr>)
            = pre @ es"
      by (simp add: Cons.prems(2) x delete_middle [OF kp kr])
    from Cons.IH [OF d1 this wf_rest] show ?thesis .
  qed
  have kept: "\<exists>es'. trackedProperties (update_loop w es T') = pre @ es' \<and> (\<forall>x \<in> set es'. ?ok x)"
    if "trackedProperties T' = pre @ (k, e') # es" "?ok (k, e')" for T' e'
  proof -
    from Cons.prems(1) have d2: "distinct (map fst ((pre @ [(k, e')]) @ es))"
      by (auto simp: x)
    from that(1) have "trackedProperties T' = (pre @ [(k, e')]) @ es" by simp
    from Cons.IH [OF d2 this wf_rest]
    obtain es' where "trackedProperties (update_loop w es T') = (pre @ [(k, e')]) @ es'"
      and "\<forall>x \<in> set es'. ?ok x" by blast
    with that(2) show ?thesis by (intro exI [of _ "(k, e') # es'"]) simp
  qed
  show ?case
  proof (cases "collected w (parentObjRef e)")
    case True
    with dropped show ?thesis by (simp add: x deref_def)
  next
    case False
    show ?thesis
    proof (cases "getter (objects w (parentObjRef e)) (property e)")
      case (Inl err)
      have "\<exists>es'. trackedProperties (update_loop w es T) = pre @ es' \<and> (\<forall>x \<in> set es'. ?ok x)"
        by (rule kept [of T e]) (simp_all add: Cons.prems(2) x Inl settled_def)
      with False Inl show ?thesis by (simp add: x deref_def)
    next
      case (Inr v)
      show ?thesis
      proof (cases "unclonable w v")
        case True
        with False Inr dropped show ?thesis by (simp add: x deref_def try_cloneDeep_def)
      next
        case clonable: False
        from Cons.prems(3) Inr have "wf_val v" by (simp add: x)
        then have eq: "isEqual v (cloneDeep v)" by (simp add: isEqual_refl cloneDeep_id)
        let ?e' = "e\<lparr>originalValueSnapshot := cloneDeep v\<rparr>"
        let ?T' = "T\<lparr>trackedProperties := AList.update k ?e' (trackedProperties T)\<rparr>"
        have "\<exists>es'. trackedProperties (update_loop w es ?T') = pre @ es' \<and> (\<forall>x \<in> set es'. ?ok x)"
          by (rule kept [of ?T' ?e'])
             (simp_all add: Cons.prems(2) x update_middle [OF kp] Inr eq settled_def)
        with False Inr clonable show ?thesis by (simp add: x deref_def try_cloneDeep_def)
      qed
    qed
  qed
qed

text \<open>
  C7: after \<open>updateSnapshots\<close>, a \<open>peekChanges\<close> in the same world returns the empty
  list. This holds for every registry with distinct keys whose readable values are
  well-formed, so in particular when all owners are alive and all reads and deep copies
  succeed.
\<close>

theorem update_then_peek_empty:
  assumes "distinct (map fst (trackedProperties T))"
    and "\<forall>x \<in> set (trackedProperties T).
           \<forall>v. getter (objects w (parentObjRef (snd x))) (property (snd x)) = Inr v \<longrightarrow> wf_val v"
  shows "snd (peekChanges w (updateSnapshots w T)) = Inr []"
proof -
  from assms(1) have "distinct (map fst ([] @ trackedProperties T))" by simp
  from update_loop_registry [OF this _ assms(2), of T]
  have "\<forall>x \<in> set (trackedProperties (updateSnapshots w T)). settled w (snd x)"
    by (auto simp: updateSnapshots_def)
  then show ?thesis
    unfolding peekChanges_def by (rule peek_loop_settled)
qed

theorem update_then_peek_empty_witness:
  "trackedProperties stale_tracker
     = [(''Object.name'', \<lparr>parentObjRef = 1, property = ''name'',
           originalValueSnapshot = JStr ''Old Name'', maxDepth = 3\<rparr>)]
   \<and> \<not> collected example_world 1
   \<and> getter (objects example_world 1) ''name'' = Inr (JStr ''Object One'')
   \<and> \<not> unclonable example_world (JStr ''Object One'')
   \<and> snd (peekChanges example_world stale_tracker)
       = Inr [\<lparr>path = ''name'', oldValue = JStr ''Old Name'', newValue = JStr ''Object One''\<rparr>]
   \<and> trackedProperties (updateSnapshots example_world stale_tracker)
       = [(''Object.name'', \<lparr>parentObjRef = 1, property = ''name'',
             originalValueSnapshot = JStr ''Object One'', maxDepth = 3\<rparr>)]
   \<and> snd (peekChanges example_world (updateSnapshots example_world stale_tracker)) = Inr []"
proof -
  have d: "distinct (map fst (trackedProperties stale_tracker))"
    by (simp add: stale_tracker_def)
  have g: "getter (objects example_world 1) ''name'' = Inr (JStr ''Object One'')"
    "\<not> collected example_world 1" "\<not> unclonable example_world (JStr ''Object One'')"
    by (simp_all add: example_world_def example_owner_def)
  have wf: "\<forall>x \<in> set (trackedProperties stale_tracker).
           \<forall>v. getter (objects example_world (parentObjRef (snd x))) (property (snd x)) = Inr v
             \<longrightarrow> wf_val v"
    by (auto simp: stale_tracker_def example_world_def example_owner_def)
  have p: "snd (peekChanges example_world stale_tracker)
       = Inr [\<lparr>path = ''name'', oldValue = JStr ''Old Name'', newValue = JStr ''Object One''\<rparr>]"
    by (simp add: peekChanges_def stale_tracker_def example_world_def example_owner_def
        deref_def diffValues.simps isSpecialTypeOrPrimitive_def)
  have u: "trackedProperties (updateSnapshots example_world stale_tracker)
       = [(''Object.name'', \<lparr>parentObjRef = 1, property = ''name'',
             originalValueSnapshot = JStr ''Object One'', maxDepth = 3\<rparr>)]"
    by (simp add: updateSnapshots_def stale_tracker_def example_world_def example_owner_def
        deref_def try_cloneDeep_def)
  from update_then_peek_empty [OF d wf] g p u show ?thesis
    by (simp add: stale_tracker_def)
qed

section \<open>Depth aggregation\<close>

lemma collect_single:
  assumes "distinct js" "i \<in> set js" "f i = Inr cs" "\<And>j. j \<in> set js \<Longrightarrow> j \<noteq> i \<Longrightarrow> f j = Inr []"
  shows "collect f js = Inr cs"
  using assms
proof (induction js)
  case Nil
  then show ?case by simp
next
  case (Cons j js)
  show ?case
  proof (cases "j = i")
    case True
    with Cons.prems have "collect f js = Inr []"
      by (intro collect_all_empty) auto
    with True Cons.prems(3) show ?thesis by simp
  next
    case False
    with Cons.prems have "f j = Inr []" "collect f js = Inr cs"
      by (auto intro: Cons.IH)
    then show ?thesis by simp
  qed
qed

lemma child_cases:
  assumes "child v s = Some x"
  obtains (arr) xs i where "v = JArr xs" "s = Index i" "i < length xs" "x = xs ! i"
        | (obj) c fs k where "v = JObj c fs" "s = Key k" "map_of fs k = Some x"
  using assms by (cases "(v, s)" rule: child.cases) (auto split: if_splits)

lemma replace_not_equal:
  "value_at ov ss = Some l \<Longrightarrow> replace_at ov ss l' = Some nv \<Longrightarrow> \<not> isEqual l l' \<Longrightarrow>
   \<not> isEqual ov nv"
proof (induction ss arbitrary: ov nv)
  case Nil
  then show ?case by simp
next
  case (Cons s ss)
  from Cons.prems(1) obtain x where x: "child ov s = Some x" and vx: "value_at x ss = Some l"
    by (auto split: option.splits)
  with Cons.prems(2) obtain u where u: "replace_at x ss l' = Some u"
    and nv: "nv = replace_child ov s u"
    by (auto split: option.splits)
  from Cons.IH [OF vx u Cons.prems(3)] have ne: "\<not> isEqual x u" .
  from x show ?case
  proof (cases rule: child_cases)
    case (arr xs i)
    show ?thesis
    proof
      assume "isEqual ov nv"
      then have "list_all2 isEqual xs (xs[i := u])" by (simp add: nv arr)
      with arr(3) have "isEqual (xs ! i) (xs[i := u] ! i)" by (auto simp: list_all2_conv_all_nth)
      with arr ne show False by simp
    qed
  next
    case (obj c fs k)
    show ?thesis
    proof
      assume "isEqual ov nv"
      moreover from obj(3) have "(k, x) \<in> set fs" by (rule map_of_SomeD)
      ultimately have "case map_of (AList.update k u fs) k of None \<Rightarrow> False
                       | Some y \<Rightarrow> isEqual x y"
        by (auto simp: nv obj list_all_iff)
      with ne show False by (simp add: update_conv')
    qed
  qed
qed

lemma wf_val_child: "wf_val v \<Longrightarrow> child v s = Some x \<Longrightarrow> wf_val x"
  by (erule child_cases [of v s x])
     (auto simp: list_all_iff dest: map_of_SomeD)

lemma unshadowed_child: "unshadowed v \<Longrightarrow> child v s = Some x \<Longrightarrow> unshadowed x"
  by (erule child_cases [of v s x])
     (auto simp: list_all_iff dest: map_of_SomeD)

lemma diff_same_empty:
  "wf_val v \<Longrightarrow> unshadowed v \<Longrightarrow> diffValues tav w v v p m d = Inr []"
  by (simp add: diffValues_isEqual isEqual_refl)

lemma diff_along_position:
  assumes "wf_val ov" "value_at ov ss = Some l" "replace_at ov ss l' = Some nv"
    and "plain_path tav ov ss" "plain_path tav nv ss"
    and "isSpecialTypeOrPrimitive tav l \<or> isSpecialTypeOrPrimitive tav l'"
    and "\<not> isEqual l l'" "d \<le> m" "\<forall>v. \<not> unclonable w v"
    and "unshadowed ov"
  shows "\<exists>a b. value_at ov (take (nat (m - d)) ss) = Some a
             \<and> value_at nv (take (nat (m - d)) ss) = Some b
             \<and> diffValues tav w ov nv p m d =
                 Inr [\<lparr>path = render p (take (nat (m - d)) ss),
                       oldValue = cloneDeep a, newValue = cloneDeep b\<rparr>]"
  using assms(1-5,8,10)
proof (induction ss arbitrary: ov nv p d)
  case Nil
  then have ov: "ov = l" and nv: "nv = l'" by simp_all
  from assms(9) have cl: "cloned_change w p l l'
      = Inr [\<lparr>path = p, oldValue = cloneDeep l, newValue = cloneDeep l'\<rparr>]"
    by (simp add: cloned_change_ok)
  show ?case
  proof (cases "m \<le> d")
    case True
    with assms(7) cl show ?thesis by (simp add: ov nv diffValues_ceiling)
  next
    case False
    with assms(6,7) show ?thesis by (simp add: ov nv diffValues_special cloneDeep_id)
  qed
next
  case (Cons s ss)
  from Cons.prems(2) obtain x where x: "child ov s = Some x" and vx: "value_at x ss = Some l"
    by (auto split: option.splits)
  with Cons.prems(3) obtain u where u: "replace_at x ss l' = Some u"
    and nv: "nv = replace_child ov s u"
    by (auto split: option.splits)
  have ne: "\<not> isEqual ov nv"
    by (rule replace_not_equal [OF Cons.prems(2,3) assms(7)])
  from assms(9) have cl: "cloned_change w p ov nv
      = Inr [\<lparr>path = p, oldValue = cloneDeep ov, newValue = cloneDeep nv\<rparr>]"
    by (simp add: cloned_change_ok)
  show ?case
  proof (cases "m \<le> d")
    case True
    with Cons.prems(6) have "nat (m - d) = 0" by simp
    with True ne cl show ?thesis by (simp add: diffValues_ceiling)
  next
    case deep: False
    then have n: "nat (m - d) = Suc (nat (m - (d + 1)))" and d1: "d + 1 \<le> m" by simp_all
    from Cons.prems(4,5) have ns: "\<not> isSpecialTypeOrPrimitive tav ov"
      "\<not> isSpecialTypeOrPrimitive tav nv" by simp_all
    from Cons.prems(1) x have wfx: "wf_val x" by (rule wf_val_child)
    from Cons.prems(7) x have usx: "unshadowed x" by (rule unshadowed_child)
    from Cons.prems(4) x have ppx: "plain_path tav x ss" by simp
    have cu: "child nv s = Some u"
      using x by (cases rule: child_cases) (simp_all add: nv update_conv')
    with Cons.prems(5) have ppu: "plain_path tav u ss" by simp
    from Cons.IH [OF wfx vx u ppx ppu d1 usx, of "render_seg p s"]
    obtain a b where a: "value_at x (take (nat (m - (d + 1))) ss) = Some a"
      and b: "value_at u (take (nat (m - (d + 1))) ss) = Some b"
      and rec: "diffValues tav w x u (render_seg p s) m (d + 1) =
                 Inr [\<lparr>path = render (render_seg p s) (take (nat (m - (d + 1))) ss),
                       oldValue = cloneDeep a, newValue = cloneDeep b\<rparr>]"
      by blast
    have "diffValues tav w ov nv p m d =
            Inr [\<lparr>path = render (render_seg p s) (take (nat (m - (d + 1))) ss),
                  oldValue = cloneDeep a, newValue = cloneDeep b\<rparr>]"
      using x
    proof (cases rule: child_cases)
      case (arr xs i)
      have nv': "nv = JArr (xs[i := u])" by (simp add: nv arr)
      have "collect
             (\<lambda>j. diffValues tav w (xs ! j) (xs[i := u] ! j) (p @ ''['' @ show_nat j @ '']'') m (d + 1))
             [0..<length xs] =
            Inr [\<lparr>path = render (render_seg p s) (take (nat (m - (d + 1))) ss),
                  oldValue = cloneDeep a, newValue = cloneDeep b\<rparr>]"
      proof (rule collect_single [where i = i])
        show "distinct [0..<length xs]" by simp
        show "i \<in> set [0..<length xs]" using arr(3) by simp
        show "diffValues tav w (xs ! i) (xs[i := u] ! i) (p @ ''['' @ show_nat i @ '']'') m (d + 1)
              = Inr [\<lparr>path = render (render_seg p s) (take (nat (m - (d + 1))) ss),
                  oldValue = cloneDeep a, newValue = cloneDeep b\<rparr>]"
          using rec arr by simp
      next
        fix j assume j: "j \<in> set [0..<length xs]" "j \<noteq> i"
        with Cons.prems(1,7) have "wf_val (xs ! j)" "unshadowed (xs ! j)"
          by (simp_all add: arr list_all_length)
        with j show "diffValues tav w (xs ! j) (xs[i := u] ! j)
                       (p @ ''['' @ show_nat j @ '']'') m (d + 1) = Inr []"
          by (simp add: diff_same_empty)
      qed
      with deep ns show ?thesis
        unfolding arr(1) nv' by (simp add: diffValues_arrays)
    next
      case (obj c fs k)
      have nv': "nv = JObj c (AList.update k u fs)" by (simp add: nv obj)
      from obj(3) have kin: "k \<in> fst ` set fs" by (auto dest!: map_of_SomeD intro: rev_image_eqI)
      then have keys_eq: "keys nv = keys ov"
        by (simp add: keys_def nv' obj update_keys)
      have na: "isArray ov \<and> isArray nv \<longleftrightarrow> False" by (simp add: obj)
      from Cons.prems(1) have dist: "distinct (keys ov)" by (simp add: obj keys_def)
      have "collect
             (\<lambda>key. diffValues tav w (get_prop ov key) (get_prop nv key) (p @ ''.'' @ key) m (d + 1))
             (keys ov) =
            Inr [\<lparr>path = render (render_seg p s) (take (nat (m - (d + 1))) ss),
                  oldValue = cloneDeep a, newValue = cloneDeep b\<rparr>]"
      proof (rule collect_single [where i = k])
        show "distinct (keys ov)" by (rule dist)
        show "k \<in> set (keys ov)" using kin by (simp add: keys_def obj)
        show "diffValues tav w (get_prop ov k) (get_prop nv k) (p @ ''.'' @ k) m (d + 1)
              = Inr [\<lparr>path = render (render_seg p s) (take (nat (m - (d + 1))) ss),
                  oldValue = cloneDeep a, newValue = cloneDeep b\<rparr>]"
          using rec obj by (simp add: get_prop_def nv' update_conv')
      next
        fix j assume j: "j \<in> set (keys ov)" "j \<noteq> k"
        then obtain y where y: "map_of fs j = Some y"
          by (auto simp: keys_def obj dest: weak_map_of_SomeI)
        with Cons.prems(1,7) have "wf_val y" "unshadowed y"
          by (auto simp: obj list_all_iff dest: map_of_SomeD)
        with y j(2) show "diffValues tav w (get_prop ov j) (get_prop nv j)
                       (p @ ''.'' @ j) m (d + 1) = Inr []"
          by (simp add: get_prop_def obj nv' update_conv' diff_same_empty)
      qed
      moreover have "\<not> (length (keys ov) \<noteq> length (keys nv)
                \<or> list_ex (\<lambda>k. \<not> has_own nv k) (keys ov))"
        by (simp add: keys_eq has_own_def list_ex_iff)
      moreover from Cons.prems(7) have plain: "''hasOwnProperty'' \<notin> set (keys nv)"
        unfolding keys_eq by (rule unshadowed_keys)
      ultimately show ?thesis
        unfolding diffValues_objects [OF deep ns na plain] using ne by simp
    qed
    with x cu a b show ?thesis by (simp add: n)
  qed
qed

lemma value_at_replace:
  "replace_at ov ss l' = Some nv \<Longrightarrow> value_at nv ss = Some l'"
proof (induction ss arbitrary: ov nv)
  case Nil
  then show ?case by simp
next
  case (Cons s ss)
  from Cons.prems obtain x u where x: "child ov s = Some x" and u: "replace_at x ss l' = Some u"
    and nv: "nv = replace_child ov s u"
    by (auto split: option.splits)
  have "child nv s = Some u"
    using x by (cases rule: child_cases) (simp_all add: nv update_conv')
  with Cons.IH [OF u] show ?case by simp
qed

text \<open>
  C2, as the code has it by design: the live value is the baseline with the value at one
  position replaced, the two values at that position are not deeply equal and at least
  one of them is atomic, and the containers above the position are not atomic. Then the
  differ, started at depth 0 with maximal depth \<open>m \<ge> 0\<close>, returns exactly one change. Its
  path is the property path followed by the first \<open>min d m\<close> segments of the position
  (\<open>d\<close> its length): the whole position, with the two leaf values, when \<open>d < m\<close>; the
  ancestor at level \<open>m\<close>, with deep copies of the two subtrees there, when \<open>d \<ge> m\<close>. At or
  beyond the ceiling the differ returns a change iff the two values are not deeply equal.
  Nothing is said of a deep copy that throws or of a baseline in which an object has an
  own property named \<^verbatim>\<open>hasOwnProperty\<close>.
\<close>

theorem depth_aggregation:
  assumes "wf_val ov" "unshadowed ov"
    and "value_at ov ss = Some l" "replace_at ov ss l' = Some nv"
    and "plain_path tav ov ss" "plain_path tav nv ss"
    and "isSpecialTypeOrPrimitive tav l \<or> isSpecialTypeOrPrimitive tav l'"
    and "\<not> isEqual l l'" "0 \<le> m" "\<forall>v. \<not> unclonable w v"
  shows "\<exists>a b. value_at ov (take (nat m) ss) = Some a
             \<and> value_at nv (take (nat m) ss) = Some b
             \<and> diffValues tav w ov nv p m 0 =
                 (if int (length ss) < m
                  then Inr [\<lparr>path = render p ss, oldValue = l, newValue = l'\<rparr>]
                  else Inr [\<lparr>path = render p (take (nat m) ss),
                             oldValue = cloneDeep a, newValue = cloneDeep b\<rparr>])
             \<and> length (take (nat m) ss) = min (length ss) (nat m)
             \<and> diffValues tav w x y q m (m + int k) =
                 (if isEqual x y then Inr []
                  else Inr [\<lparr>path = q, oldValue = cloneDeep x, newValue = cloneDeep y\<rparr>])"
proof -
  from diff_along_position [OF assms(1,3-8) assms(9,10) assms(2), of p]
  obtain a b where a: "value_at ov (take (nat m) ss) = Some a"
    and b: "value_at nv (take (nat m) ss) = Some b"
    and r: "diffValues tav w ov nv p m 0 =
                 Inr [\<lparr>path = render p (take (nat m) ss),
                       oldValue = cloneDeep a, newValue = cloneDeep b\<rparr>]"
    by auto
  have ceil: "diffValues tav w x y q m (m + int k) =
                 (if isEqual x y then Inr []
                  else Inr [\<lparr>path = q, oldValue = cloneDeep x, newValue = cloneDeep y\<rparr>])"
    using assms(10) by (simp add: diffValues_ceiling cloned_change_ok)
  have exact: "take (nat m) ss = ss \<and> a = l \<and> b = l'" if "int (length ss) < m"
  proof -
    from that have t: "take (nat m) ss = ss" by simp
    with a b assms(3) value_at_replace [OF assms(4)] show ?thesis by simp
  qed
  have "diffValues tav w ov nv p m 0 =
                 (if int (length ss) < m
                  then Inr [\<lparr>path = render p ss, oldValue = l, newValue = l'\<rparr>]
                  else Inr [\<lparr>path = render p (take (nat m) ss),
                             oldValue = cloneDeep a, newValue = cloneDeep b\<rparr>])"
    using r exact by (auto simp: cloneDeep_id)
  with a b ceil show ?thesis by (intro exI [of _ a] exI [of _ b]) simp
qed

theorem depth_aggregation_witness:
  "wf_val address_old
   \<and> unshadowed address_old
   \<and> value_at address_old [Key ''details'', Key ''notes'', Index 1] = Some (JStr ''second'')
   \<and> replace_at address_old [Key ''details'', Key ''notes'', Index 1] (JStr ''changed'')
        = Some address_new
   \<and> plain_path (\<lambda>v. False) address_old [Key ''details'', Key ''notes'', Index 1]
   \<and> plain_path (\<lambda>v. False) address_new [Key ''details'', Key ''notes'', Index 1]
   \<and> isSpecialTypeOrPrimitive (\<lambda>v. False) (JStr ''second'')
   \<and> \<not> isEqual (JStr ''second'') (JStr ''changed'')
   \<and> diffValues (\<lambda>v. False) quiet_world address_old address_new ''address'' 4 0
        = Inr [\<lparr>path = ''address.details.notes[1]'',
                oldValue = JStr ''second'', newValue = JStr ''changed''\<rparr>]
   \<and> diffValues (\<lambda>v. False) quiet_world address_old address_new ''address'' 2 0
        = Inr [\<lparr>path = ''address.details.notes'',
                oldValue = JArr [JStr ''first'', JStr ''second''],
                newValue = JArr [JStr ''first'', JStr ''changed'']\<rparr>]"
proof -
  let ?ss = "[Key ''details'', Key ''notes'', Index 1]"
  have h1: "wf_val address_old" by (simp add: address_old_def)
  have h0: "unshadowed address_old" by (simp add: address_old_def)
  have h2: "value_at address_old ?ss = Some (JStr ''second'')" by (simp add: address_old_def)
  have h3: "replace_at address_old ?ss (JStr ''changed'') = Some address_new"
    by (simp add: address_old_def address_new_def)
  have h4: "plain_path (\<lambda>v. False) address_old ?ss"
    by (simp add: address_old_def isSpecialTypeOrPrimitive_def)
  have h5: "plain_path (\<lambda>v. False) address_new ?ss"
    by (simp add: address_new_def isSpecialTypeOrPrimitive_def)
  have h6: "isSpecialTypeOrPrimitive (\<lambda>v. False) (JStr ''second'')
            \<or> isSpecialTypeOrPrimitive (\<lambda>v. False) (JStr ''changed'')"
    by (simp add: isSpecialTypeOrPrimitive_def)
  have h7: "\<not> isEqual (JStr ''second'') (JStr ''changed'')" by simp
  have h9: "\<forall>v. \<not> unclonable quiet_world v" by (simp add: quiet_world_def)
  have m4: "(0::int) \<le> 4" and m2: "(0::int) \<le> 2" by simp_all
  have t2: "take (nat 2) ?ss = [Key ''details'', Key ''notes'']" by (simp add: eval_nat_numeral)
  have sn: "show_nat (Suc 0) = ''1''" by (simp add: show_nat.simps)
  note four = depth_aggregation [OF h1 h0 h2 h3 h4 h5 h6 h7 m4 h9, of "''address''" JNull JNull "''q''" 0]
  note two = depth_aggregation [OF h1 h0 h2 h3 h4 h5 h6 h7 m2 h9, of "''address''" JNull JNull "''q''" 0]
  from four have r4: "diffValues (\<lambda>v. False) quiet_world address_old address_new ''address'' 4 0
        = Inr [\<lparr>path = ''address.details.notes[1]'',
                oldValue = JStr ''second'', newValue = JStr ''changed''\<rparr>]"
    by (auto simp: sn)
  from two have r2: "diffValues (\<lambda>v. False) quiet_world address_old address_new ''address'' 2 0
        = Inr [\<lparr>path = ''address.details.notes'',
                oldValue = JArr [JStr ''first'', JStr ''second''],
                newValue = JArr [JStr ''first'', JStr ''changed'']\<rparr>]"
    unfolding t2 by (auto simp: address_old_def address_new_def)
  from h1 h0 h2 h3 h4 h5 h6 h7 r4 r2 show ?thesis
    by (simp add: isSpecialTypeOrPrimitive_def)
qed

text \<open>
  C2 as stated fails when a container above the leaf is atomic for the predicate of the
  tracker. The \<^verbatim>\<open>id\<close> of a \<^verbatim>\<open>CustomId\<close> is a leaf at depth 2 and the maximal depth is 3,
  so that the claim gives the path \<open>metadata.customId.id\<close>, of two segments; the differ
  reports \<open>metadata.customId\<close>, of one segment, holding the two instances.
\<close>

theorem atomic_ancestor_counterexample:
  "value_at (JObj ''Object'' [(''customId'', JObj ''CustomId'' [(''id'', JStr ''abc-123'')])])
        [Key ''customId'', Key ''id''] = Some (JStr ''abc-123'')
   \<and> replace_at (JObj ''Object'' [(''customId'', JObj ''CustomId'' [(''id'', JStr ''abc-123'')])])
        [Key ''customId'', Key ''id''] (JStr ''xyz-789'')
      = Some (JObj ''Object'' [(''customId'', JObj ''CustomId'' [(''id'', JStr ''xyz-789'')])])
   \<and> render ''metadata'' (take (min 2 3) [Key ''customId'', Key ''id''])
      = ''metadata.customId.id''
   \<and> diffValues isCustomValueType quiet_world
        (JObj ''Object'' [(''customId'', JObj ''CustomId'' [(''id'', JStr ''abc-123'')])])
        (JObj ''Object'' [(''customId'', JObj ''CustomId'' [(''id'', JStr ''xyz-789'')])])
        ''metadata'' 3 0
      = Inr [\<lparr>path = ''metadata.customId'',
              oldValue = JObj ''CustomId'' [(''id'', JStr ''abc-123'')],
              newValue = JObj ''CustomId'' [(''id'', JStr ''xyz-789'')]\<rparr>]"
  by (simp add: diffValues.simps isSpecialTypeOrPrimitive_def keys_def hasOwnProperty_def
        has_own_def get_prop_def)


end
